theory Spec2Isabelle
  imports Complex_Main
begin

section \<open>Arrays\<close>

text \<open>
  The notebook \<^verbatim>\<open>examples/reprsimil/bayesian_rsa_example.ipynb\<close> computes with numpy
  arrays of float64. A one-dimensional array is a list of reals and a two-dimensional
  array is the list of its rows. The cells are modelled in exact real arithmetic; the
  section on float64 arithmetic gives the rounded versions of the two kernels and of the
  correlation matrix, and the last section shows where underflow and rounding make the
  program depart from the exact model. In HOL \<open>x / 0 = 0\<close>, where numpy gives \<^verbatim>\<open>inf\<close> or
  \<^verbatim>\<open>nan\<close> (a zero width, \<open>\<bar>rho1\<bar> = 1\<close>): the theorems about a value computed by such a
  division (C1 to C4) exclude these inputs by a hypothesis; C5 and C9 do not, and at
  such inputs they describe the model only.
\<close>

type_synonym vec = "real list"
type_synonym mat = "real list list"

text \<open>
  The exceptions the modelled cells can raise: numpy's \<^verbatim>\<open>LinAlgError\<close>, with the reason
  it reports, and Python's \<^verbatim>\<open>IndexError\<close>.
\<close>

datatype linalg_reason = NotSquare | NotPositiveDefinite

datatype error = LinAlgError linalg_reason | IndexError

definition ncols :: "mat \<Rightarrow> nat" where
  "ncols A = (case A of [] \<Rightarrow> 0 | r # _ \<Rightarrow> length r)"

text \<open>An array of shape \<open>(n, m)\<close>.\<close>

definition is_mat :: "nat \<Rightarrow> nat \<Rightarrow> mat \<Rightarrow> bool" where
  "is_mat n m A = (length A = n \<and> list_all (\<lambda>row. length row = m) A)"

text \<open>\<^verbatim>\<open>np.zeros([n, m])\<close> and \<^verbatim>\<open>np.eye(n)\<close>.\<close>

definition zeros :: "nat \<Rightarrow> nat \<Rightarrow> mat" where
  "zeros n m = replicate n (replicate m 0)"

definition eye :: "nat \<Rightarrow> mat" where
  "eye n = map (\<lambda>i. map (\<lambda>j. if i = j then 1 else 0) [0..<n]) [0..<n]"

text \<open>
  Elementwise operations: on one array, on two arrays of the same shape, and numpy's
  broadcasting of a two-dimensional array against a one-dimensional one (\<^verbatim>\<open>A op v\<close>,
  the vector running along each row) and against a column (\<^verbatim>\<open>v[:, None] op A\<close> and
  \<^verbatim>\<open>A op v[:, None]\<close>, entry \<open>i\<close> of the vector meeting row \<open>i\<close>).
\<close>

definition mat_map :: "(real \<Rightarrow> real) \<Rightarrow> mat \<Rightarrow> mat" where
  "mat_map f A = map (map f) A"

definition mat_map2 :: "(real \<Rightarrow> real \<Rightarrow> real) \<Rightarrow> mat \<Rightarrow> mat \<Rightarrow> mat" where
  "mat_map2 f A B = map2 (map2 f) A B"

definition op_row :: "(real \<Rightarrow> real \<Rightarrow> real) \<Rightarrow> mat \<Rightarrow> vec \<Rightarrow> mat" where
  "op_row f A v = map (\<lambda>row. map2 f row v) A"

definition col_op :: "(real \<Rightarrow> real \<Rightarrow> real) \<Rightarrow> vec \<Rightarrow> mat \<Rightarrow> mat" where
  "col_op f v A = map2 (\<lambda>x row. map (f x) row) v A"

definition op_col :: "(real \<Rightarrow> real \<Rightarrow> real) \<Rightarrow> mat \<Rightarrow> vec \<Rightarrow> mat" where
  "op_col f A v = map2 (\<lambda>row x. map (\<lambda>a. f a x) row) A v"

text \<open>\<^verbatim>\<open>A.T\<close>, \<^verbatim>\<open>np.diag(A)\<close> and \<^verbatim>\<open>np.tile(v, [n, 1])\<close>.\<close>

definition transpose_m :: "mat \<Rightarrow> mat" where
  "transpose_m A = map (\<lambda>j. map (\<lambda>i. A ! i ! j) [0..<length A]) [0..<ncols A]"

definition diag :: "mat \<Rightarrow> vec" where
  "diag A = map (\<lambda>i. A ! i ! i) [0..<length A]"

definition tile_rows :: "vec \<Rightarrow> nat \<Rightarrow> mat" where
  "tile_rows v n = replicate n v"

text \<open>\<^verbatim>\<open>np.dot\<close> on two vectors, on a matrix and a vector, and on two matrices.\<close>

definition dot :: "vec \<Rightarrow> vec \<Rightarrow> real" where
  "dot x y = (\<Sum>k<length x. x ! k * y ! k)"

definition mat_vec :: "mat \<Rightarrow> vec \<Rightarrow> vec" where
  "mat_vec A x = map (\<lambda>row. dot row x) A"

definition mat_mul :: "mat \<Rightarrow> mat \<Rightarrow> mat" where
  "mat_mul A B = map (\<lambda>row. map (\<lambda>j. \<Sum>k<length B. row ! k * B ! k ! j) [0..<ncols B]) A"

section \<open>The random generator\<close>

text \<open>
  \<^verbatim>\<open>np.random\<close> is a global generator. Its state is the stream of standard-normal
  values it is going to return; \<^verbatim>\<open>np.random.randn(n)\<close> takes the next \<open>n\<close> of them and
  \<^verbatim>\<open>np.random.randn(n, m)\<close> the next \<open>n * m\<close>, filling the array row by row. Both
  return the array and the state after the call. The uniform draws of the notebook
  (\<^verbatim>\<open>noise_level\<close>, \<^verbatim>\<open>rho1\<close>, \<^verbatim>\<open>inten\<close>) are inputs of the model.
\<close>

type_synonym rng = "nat \<Rightarrow> real"

definition randn :: "nat \<Rightarrow> rng \<Rightarrow> vec \<times> rng" where
  "randn n g = (map g [0..<n], \<lambda>k. g (k + n))"

text \<open>
  The \<open>t\<close>-th block of \<open>n\<close> values of the stream: what the \<open>t\<close>-th of a run of calls
  \<^verbatim>\<open>np.random.randn(n)\<close> returns.
\<close>

definition draw :: "rng \<Rightarrow> nat \<Rightarrow> nat \<Rightarrow> vec" where
  "draw g n t = map (\<lambda>k. g (t * n + k)) [0..<n]"

definition randn2 :: "nat \<Rightarrow> nat \<Rightarrow> rng \<Rightarrow> mat \<times> rng" where
  "randn2 n m g = (map (\<lambda>i. map (\<lambda>j. g (i * m + j)) [0..<m]) [0..<n], \<lambda>k. g (k + n * m))"

section \<open>Cholesky factorisation\<close>

text \<open>
  \<^verbatim>\<open>np.linalg.cholesky\<close> is a library routine (LAPACK \<^verbatim>\<open>potrf\<close>). It raises
  \<^verbatim>\<open>LinAlgError\<close> on an array that is not square, reads the lower triangle only, and
  raises \<^verbatim>\<open>LinAlgError("Matrix is not positive definite")\<close> as soon as a pivot is not
  positive. The model is the outer-product form of the factorisation: the first column
  of the factor is the first column of the matrix divided by the root of the pivot, and
  the rest is the factor of the matrix that remains once the outer product of that column
  is subtracted.
\<close>

definition square :: "mat \<Rightarrow> bool" where
  "square A = list_all (\<lambda>row. length row = length A) A"

definition chol_col :: "mat \<Rightarrow> vec" where
  "chol_col A = map (\<lambda>i. A ! Suc i ! 0 / sqrt (A ! 0 ! 0)) [0..<length A - 1]"

definition chol_rest :: "mat \<Rightarrow> mat" where
  "chol_rest A =
     map (\<lambda>i. map (\<lambda>j. A ! Suc i ! Suc j - chol_col A ! i * chol_col A ! j)
                [0..<length A - 1]) [0..<length A - 1]"

definition chol_assemble :: "real \<Rightarrow> vec \<Rightarrow> mat \<Rightarrow> mat" where
  "chol_assemble d l L' = (d # replicate (length l) 0) # map2 (#) l L'"

function cholesky :: "mat \<Rightarrow> error + mat" where
  "cholesky A =
     (if \<not> square A then Inl (LinAlgError NotSquare)
      else if A = [] then Inr []
      else if A ! 0 ! 0 \<le> 0 then Inl (LinAlgError NotPositiveDefinite)
      else case cholesky (chol_rest A) of
             Inl e \<Rightarrow> Inl e
           | Inr L' \<Rightarrow> Inr (chol_assemble (sqrt (A ! 0 ! 0)) (chol_col A) L'))"
  by pat_completeness auto
termination
  by (relation "measure length") (auto simp: chol_rest_def)

text \<open>
  What a successful factorisation returns: a lower-triangular \<open>L\<close> with a positive
  diagonal and \<open>L L\<^sup>T = A\<close>.
\<close>

definition chol_factor :: "mat \<Rightarrow> mat \<Rightarrow> bool" where
  "chol_factor A L =
     (is_mat (length A) (length A) L \<and>
      (\<forall>i<length A. \<forall>j<length A. i < j \<longrightarrow> L ! i ! j = 0) \<and>
      (\<forall>i<length A. 0 < L ! i ! i) \<and>
      (\<forall>i<length A. \<forall>j<length A. (\<Sum>k<length A. L ! i ! k * L ! j ! k) = A ! i ! j))"

section \<open>The noise simulator\<close>

text \<open>
  \<^verbatim>\<open>spdist.squareform(spdist.pdist(coords_flat, 'sqeuclidean'))\<close>: \<^verbatim>\<open>pdist\<close> computes the
  squared Euclidean distance of every pair \<open>i < j\<close> of rows, and \<^verbatim>\<open>squareform\<close> lays
  them out as a symmetric matrix with a zero diagonal.
\<close>

definition sqeuclidean :: "vec \<Rightarrow> vec \<Rightarrow> real" where
  "sqeuclidean u v = (\<Sum>k<length u. (u ! k - v ! k)\<^sup>2)"

definition squareform_pdist :: "mat \<Rightarrow> mat" where
  "squareform_pdist X =
     map (\<lambda>i. map (\<lambda>j. if i = j then 0
                        else if i < j then sqeuclidean (X ! i) (X ! j)
                        else sqeuclidean (X ! j) (X ! i))
                [0..<length X]) [0..<length X]"

text \<open>
  \<^verbatim>\<open>K_noise = noise_level[:, np.newaxis]
      * (np.exp(-dist2 / noise_smooth_width**2 / 2.0) + np.eye(n_V) * 0.1) * noise_level\<close>
\<close>

definition K_noise :: "vec \<Rightarrow> mat \<Rightarrow> real \<Rightarrow> mat" where
  "K_noise noise_level dist2 noise_smooth_width =
     op_row (*)
       (col_op (*) noise_level
          (mat_map2 (+)
             (mat_map exp (mat_map (\<lambda>d. - d / noise_smooth_width\<^sup>2 / 2) dist2))
             (mat_map (\<lambda>e. e * 0.1) (eye (length noise_level)))))
       noise_level"

text \<open>
  The AR(1) loop. \<^verbatim>\<open>noise = np.zeros([n_T, n_V])\<close>, then row 0 is assigned (an
  \<^verbatim>\<open>IndexError\<close> when the array has no row), then every row \<open>i_t\<close> of
  \<^verbatim>\<open>range(1, n_T)\<close> from the row before it. Each assignment draws one vector from
  the generator.
\<close>

definition ar1_first :: "mat \<Rightarrow> vec \<Rightarrow> vec \<Rightarrow> vec" where
  "ar1_first L_noise rho1 z = map2 (/) (mat_vec L_noise z) (map (\<lambda>r. sqrt (1 - r\<^sup>2)) rho1)"

definition ar1_next :: "mat \<Rightarrow> vec \<Rightarrow> vec \<Rightarrow> vec \<Rightarrow> vec" where
  "ar1_next L_noise rho1 prev z = map2 (+) (map2 (*) prev rho1) (mat_vec L_noise z)"

definition ar1_step :: "mat \<Rightarrow> vec \<Rightarrow> nat \<Rightarrow> nat \<Rightarrow> mat \<times> rng \<Rightarrow> mat \<times> rng" where
  "ar1_step L_noise rho1 n_V i_t s =
     (case s of (noise, g) \<Rightarrow>
        (case randn n_V g of (z, g') \<Rightarrow>
           (noise[i_t := ar1_next L_noise rho1 (noise ! (i_t - 1)) z], g')))"

definition ar1_noise :: "mat \<Rightarrow> vec \<Rightarrow> nat \<Rightarrow> nat \<Rightarrow> rng \<Rightarrow> error + mat \<times> rng" where
  "ar1_noise L_noise rho1 n_T n_V g =
     (if n_T = 0 then Inl IndexError
      else case randn n_V g of (z, g') \<Rightarrow>
        Inr (fold (ar1_step L_noise rho1 n_V) [1..<n_T]
               ((zeros n_T n_V)[0 := ar1_first L_noise rho1 z], g')))"

text \<open>\<^verbatim>\<open>noise = noise + np.random.randn(n_V)\<close>\<close>

definition add_offset :: "mat \<Rightarrow> nat \<Rightarrow> rng \<Rightarrow> mat \<times> rng" where
  "add_offset noise n_V g = (case randn n_V g of (c, g') \<Rightarrow> (op_row (+) noise c, g'))"

text \<open>
  The whole noise cell, from the drawn \<^verbatim>\<open>noise_level\<close> and \<^verbatim>\<open>rho1\<close> on. \<open>n_V\<close> is the
  length of \<^verbatim>\<open>noise_level\<close>.
\<close>

definition simulate_noise ::
  "mat \<Rightarrow> vec \<Rightarrow> vec \<Rightarrow> real \<Rightarrow> nat \<Rightarrow> rng \<Rightarrow> error + mat \<times> rng" where
  "simulate_noise coords_flat noise_level rho1 noise_smooth_width n_T g =
     (let n_V = length noise_level;
          dist2 = squareform_pdist coords_flat
      in case cholesky (K_noise noise_level dist2 noise_smooth_width) of
           Inl e \<Rightarrow> Inl e
         | Inr L_noise \<Rightarrow>
             (case ar1_noise L_noise rho1 n_T n_V g of
                Inl e \<Rightarrow> Inl e
              | Inr (noise, g') \<Rightarrow> Inr (add_offset noise n_V g')))"

text \<open>
  Independent sampling, as the specification words it: row \<open>t\<close> is \<^verbatim>\<open>L_noise @ z_t\<close>,
  with \<open>z_t\<close> the \<open>t\<close>-th vector drawn, and nothing else.
\<close>

definition iid_noise :: "mat \<Rightarrow> nat \<Rightarrow> nat \<Rightarrow> rng \<Rightarrow> mat \<times> rng" where
  "iid_noise L_noise n_T n_V g =
     (map (\<lambda>t. mat_vec L_noise (draw g n_V t)) [0..<n_T], \<lambda>k. g (k + n_T * n_V))"

section \<open>The ideal covariance and correlation\<close>

text \<open>
  \<^verbatim>\<open>ideal_cov = np.eye(n_C) * 0.6
  ideal_cov[8:12, 8:12] = 0.8
  for cond in range(8, 12):
      ideal_cov[cond,cond] = 1\<close>

  A slice assignment is clipped to the array; an assignment to one entry outside the
  array raises \<^verbatim>\<open>IndexError\<close>.
\<close>

definition set_block :: "nat \<Rightarrow> nat \<Rightarrow> real \<Rightarrow> mat \<Rightarrow> mat" where
  "set_block lo hi x A =
     map (\<lambda>i. map (\<lambda>j. if lo \<le> i \<and> i < hi \<and> lo \<le> j \<and> j < hi then x else A ! i ! j)
                [0..<length (A ! i)]) [0..<length A]"

definition set_entry :: "mat \<Rightarrow> nat \<Rightarrow> nat \<Rightarrow> real \<Rightarrow> error + mat" where
  "set_entry A i j x =
     (if i < length A \<and> j < length (A ! i) then Inr (A[i := (A ! i)[j := x]])
      else Inl IndexError)"

fun set_diag_loop :: "nat list \<Rightarrow> mat \<Rightarrow> error + mat" where
  "set_diag_loop [] A = Inr A"
| "set_diag_loop (cond # conds) A =
     (case set_entry A cond cond 1 of
        Inl e \<Rightarrow> Inl e
      | Inr A' \<Rightarrow> set_diag_loop conds A')"

definition ideal_cov :: "nat \<Rightarrow> error + mat" where
  "ideal_cov n_C =
     set_diag_loop [8..<12] (set_block 8 12 0.8 (mat_map (\<lambda>e. e * 0.6) (eye n_C)))"

text \<open>
  \<^verbatim>\<open>std_diag = np.diag(ideal_cov)**0.5
  ideal_corr = ideal_cov / std_diag / std_diag[:, None]\<close>
\<close>

definition ideal_corr :: "mat \<Rightarrow> mat" where
  "ideal_corr U =
     (let std_diag = map sqrt (diag U)
      in op_col (/) (op_row (/) U std_diag) std_diag)"

section \<open>The signal simulator\<close>

text \<open>
  \<^verbatim>\<open>inten_tile = np.tile(inten, [n_V, 1])
  inten_diff2 = (inten_tile - inten_tile.T)**2
  K = np.exp(-dist2 / smooth_width**2 / 2.0
             - inten_diff2 / inten_kernel**2 / 2.0) * tau**2 \
      + np.eye(n_V) * tau**2 * 0.001\<close>
\<close>

definition inten_diff2 :: "vec \<Rightarrow> mat" where
  "inten_diff2 inten =
     (let inten_tile = tile_rows inten (length inten)
      in mat_map (\<lambda>x. x\<^sup>2) (mat_map2 (-) inten_tile (transpose_m inten_tile)))"

definition K_snr :: "mat \<Rightarrow> mat \<Rightarrow> real \<Rightarrow> real \<Rightarrow> real \<Rightarrow> nat \<Rightarrow> mat" where
  "K_snr dist2 idiff2 smooth_width inten_kernel tau n_V =
     mat_map2 (+)
       (mat_map (\<lambda>e. e * tau\<^sup>2)
          (mat_map exp
             (mat_map2 (-) (mat_map (\<lambda>d. - d / smooth_width\<^sup>2 / 2) dist2)
                           (mat_map (\<lambda>d. d / inten_kernel\<^sup>2 / 2) idiff2))))
       (mat_map (\<lambda>e. e * tau\<^sup>2 * 0.001) (eye n_V))"

text \<open>
  \<^verbatim>\<open>L_full = np.linalg.cholesky(ideal_cov)
  L = np.linalg.cholesky(K)
  snr = np.exp(np.dot(L, np.random.randn(n_V))) * snr_level
  sqrt_v = noise_level * snr
  betas_simulated = np.dot(L_full, np.random.randn(n_C, n_V)) * sqrt_v
  signal = np.dot(design.design_task, betas_simulated)\<close>

  \<open>n_V\<close> is the length of \<^verbatim>\<open>noise_level\<close> and \<open>n_C\<close> the number of columns of the
  design matrix.
\<close>

record signal_sim =
  snr :: vec
  betas_simulated :: mat
  signal :: mat

definition simulate_signal ::
  "mat \<Rightarrow> mat \<Rightarrow> vec \<Rightarrow> mat \<Rightarrow> vec \<Rightarrow> real \<Rightarrow> real \<Rightarrow> real \<Rightarrow> real \<Rightarrow> rng
     \<Rightarrow> error + signal_sim \<times> rng" where
  "simulate_signal design U noise_level dist2 inten tau smooth_width inten_kernel snr_level g =
     (let n_V = length noise_level; n_C = ncols design
      in case cholesky U of
           Inl e \<Rightarrow> Inl e
         | Inr L_full \<Rightarrow>
            (case cholesky (K_snr dist2 (inten_diff2 inten) smooth_width inten_kernel tau n_V) of
               Inl e \<Rightarrow> Inl e
             | Inr L \<Rightarrow>
                (case randn n_V g of (z, g1) \<Rightarrow>
                   (case randn2 n_C n_V g1 of (Z, g2) \<Rightarrow>
                      (let snr = map (\<lambda>x. exp x * snr_level) (mat_vec L z);
                           sqrt_v = map2 (*) noise_level snr;
                           betas = op_row (*) (mat_mul L_full Z) sqrt_v
                       in Inr (\<lparr>snr = snr, betas_simulated = betas,
                                 signal = mat_mul design betas\<rparr>, g2))))))"

section \<open>Least squares\<close>

text \<open>
  \<^verbatim>\<open>regressor = np.insert(design.design_task, 0, 1, axis=1)
  betas_point = np.linalg.lstsq(regressor, Y)[0]\<close>

  \<^verbatim>\<open>np.linalg.lstsq\<close> is a library routine. Its contract: for every column of the
  right-hand side, the returned column minimises the Euclidean norm of the residual, and
  among the minimisers it is one of least Euclidean norm.
\<close>

definition insert_ones :: "mat \<Rightarrow> mat" where
  "insert_ones design = map (\<lambda>row. 1 # row) design"

definition column :: "mat \<Rightarrow> nat \<Rightarrow> vec" where
  "column A k = map (\<lambda>row. row ! k) A"

definition residual2 :: "mat \<Rightarrow> vec \<Rightarrow> vec \<Rightarrow> real" where
  "residual2 X b y = (\<Sum>t<length X. (dot (X ! t) b - y ! t)\<^sup>2)"

definition least_squares :: "mat \<Rightarrow> vec \<Rightarrow> vec \<Rightarrow> bool" where
  "least_squares X y b =
     (length b = ncols X \<and>
      (\<forall>b'. length b' = ncols X \<longrightarrow> residual2 X b y \<le> residual2 X b' y))"

definition lstsq_solution :: "mat \<Rightarrow> mat \<Rightarrow> mat \<Rightarrow> bool" where
  "lstsq_solution X Y B =
     (is_mat (ncols X) (ncols Y) B \<and>
      (\<forall>k<ncols Y. least_squares X (column Y k) (column B k) \<and>
         (\<forall>b'. least_squares X (column Y k) b' \<longrightarrow> dot (column B k) (column B k) \<le> dot b' b')))"

text \<open>The columns of \<open>X\<close> are linearly independent.\<close>

definition full_column_rank :: "mat \<Rightarrow> bool" where
  "full_column_rank X =
     (\<forall>c. length c = ncols X \<longrightarrow> mat_vec X c = replicate (length X) 0
          \<longrightarrow> c = replicate (ncols X) 0)"

section \<open>Symmetric and positive definite matrices\<close>

definition quad_form :: "mat \<Rightarrow> vec \<Rightarrow> real" where
  "quad_form A c = (\<Sum>i<length A. \<Sum>j<length A. c ! i * A ! i ! j * c ! j)"

definition symmetric :: "mat \<Rightarrow> bool" where
  "symmetric A = (square A \<and> (\<forall>i<length A. \<forall>j<length A. A ! i ! j = A ! j ! i))"

definition pos_def :: "mat \<Rightarrow> bool" where
  "pos_def A = (\<forall>c. length c = length A \<longrightarrow> (\<exists>i<length A. c ! i \<noteq> 0) \<longrightarrow> 0 < quad_form A c)"

definition pos_semidef :: "mat \<Rightarrow> bool" where
  "pos_semidef A = (\<forall>c. length c = length A \<longrightarrow> 0 \<le> quad_form A c)"

section \<open>Float64 arithmetic\<close>

text \<open>
  numpy computes in IEEE 754 binary64. \<open>fl\<close> rounds a real to the nearest float64, ties
  to even: 53 significant bits in the binade of the number, and below \<^verbatim>\<open>2**-1022\<close> the
  fixed spacing \<^verbatim>\<open>2**-1074\<close> of the subnormal numbers, so that a result of magnitude
  under \<^verbatim>\<open>2**-1075\<close> becomes zero. Results beyond the largest float64 (\<^verbatim>\<open>inf\<close>) and
  \<^verbatim>\<open>nan\<close> are outside the model. An arithmetic operation of numpy is the exact operation
  followed by \<open>fl\<close>; a decimal literal \<^verbatim>\<open>0.1\<close> of the source is \<open>fl 0.1\<close>. The square root
  is correctly rounded by IEEE 754; \<^verbatim>\<open>exp\<close> is used below at 0 only, where it is exact.
\<close>

definition round_even :: "real \<Rightarrow> int" where
  "round_even y =
     (let f = \<lfloor>y\<rfloor>
      in if y - of_int f < 1 / 2 then f
         else if 1 / 2 < y - of_int f then f + 1
         else if even f then f else f + 1)"

definition binade :: "real \<Rightarrow> int" where
  "binade x = max \<lfloor>log 2 \<bar>x\<bar>\<rfloor> (- 1022)"

definition fl :: "real \<Rightarrow> real" where
  "fl x =
     (if x = 0 then 0
      else of_int (round_even (x / 2 powr (of_int (binade x) - 52))) * 2 powr (of_int (binade x) - 52))"

definition fadd :: "real \<Rightarrow> real \<Rightarrow> real" where "fadd a b = fl (a + b)"
definition fsub :: "real \<Rightarrow> real \<Rightarrow> real" where "fsub a b = fl (a - b)"
definition fmul :: "real \<Rightarrow> real \<Rightarrow> real" where "fmul a b = fl (a * b)"
definition fdiv :: "real \<Rightarrow> real \<Rightarrow> real" where "fdiv a b = fl (a / b)"
definition fsqrt :: "real \<Rightarrow> real" where "fsqrt a = fl (sqrt a)"
definition fexp :: "real \<Rightarrow> real" where "fexp a = fl (exp a)"

text \<open>
  The two kernels and the correlation matrix, with every operation of the source
  rounded: \<^verbatim>\<open>x**2\<close> is the rounded product \<open>x * x\<close> and \<^verbatim>\<open>x**0.5\<close> the rounded square
  root.
\<close>

definition K_noise_f64 :: "vec \<Rightarrow> mat \<Rightarrow> real \<Rightarrow> mat" where
  "K_noise_f64 noise_level dist2 noise_smooth_width =
     op_row fmul
       (col_op fmul noise_level
          (mat_map2 fadd
             (mat_map fexp
                (mat_map (\<lambda>d. fdiv (fdiv (- d) (fmul noise_smooth_width noise_smooth_width)) 2)
                   dist2))
             (mat_map (\<lambda>e. fmul e (fl 0.1)) (eye (length noise_level)))))
       noise_level"

definition inten_diff2_f64 :: "vec \<Rightarrow> mat" where
  "inten_diff2_f64 inten =
     (let inten_tile = tile_rows inten (length inten)
      in mat_map (\<lambda>x. fmul x x) (mat_map2 fsub inten_tile (transpose_m inten_tile)))"

definition K_snr_f64 :: "mat \<Rightarrow> mat \<Rightarrow> real \<Rightarrow> real \<Rightarrow> real \<Rightarrow> nat \<Rightarrow> mat" where
  "K_snr_f64 dist2 idiff2 smooth_width inten_kernel tau n_V =
     mat_map2 fadd
       (mat_map (\<lambda>e. fmul e (fmul tau tau))
          (mat_map fexp
             (mat_map2 fsub
                (mat_map (\<lambda>d. fdiv (fdiv (- d) (fmul smooth_width smooth_width)) 2) dist2)
                (mat_map (\<lambda>d. fdiv (fdiv d (fmul inten_kernel inten_kernel)) 2) idiff2))))
       (mat_map (\<lambda>e. fmul (fmul e (fmul tau tau)) (fl 0.001)) (eye n_V))"

definition ideal_corr_f64 :: "mat \<Rightarrow> mat" where
  "ideal_corr_f64 U =
     (let std_diag = map fsqrt (diag U)
      in op_col fdiv (op_row fdiv U std_diag) std_diag)"

section \<open>Entries of the arrays\<close>

lemma is_mat_row: "is_mat n m A \<Longrightarrow> i < n \<Longrightarrow> length (A ! i) = m"
  by (simp add: is_mat_def list_all_length)

lemma is_matI: "length A = n \<Longrightarrow> (\<And>i. i < n \<Longrightarrow> length (A ! i) = m) \<Longrightarrow> is_mat n m A"
  by (simp add: is_mat_def list_all_length)

lemma eye_nth: "i < n \<Longrightarrow> j < n \<Longrightarrow> eye n ! i ! j = (if i = j then 1 else 0)"
  by (simp add: eye_def)

lemma is_mat_eye: "is_mat n n (eye n)"
  by (rule is_matI) (simp_all add: eye_def)

lemma mat_map_nth: "is_mat n m A \<Longrightarrow> i < n \<Longrightarrow> j < m \<Longrightarrow> mat_map f A ! i ! j = f (A ! i ! j)"
  by (simp add: mat_map_def is_mat_def list_all_length)

lemma is_mat_mat_map: "is_mat n m A \<Longrightarrow> is_mat n m (mat_map f A)"
  by (simp add: mat_map_def is_mat_def list_all_length)

lemma mat_map2_nth:
  "is_mat n m A \<Longrightarrow> is_mat n m B \<Longrightarrow> i < n \<Longrightarrow> j < m \<Longrightarrow>
   mat_map2 f A B ! i ! j = f (A ! i ! j) (B ! i ! j)"
  by (simp add: mat_map2_def is_mat_def list_all_length)

lemma is_mat_mat_map2: "is_mat n m A \<Longrightarrow> is_mat n m B \<Longrightarrow> is_mat n m (mat_map2 f A B)"
  by (simp add: mat_map2_def is_mat_def list_all_length)

lemma op_row_nth:
  "is_mat n m A \<Longrightarrow> length v = m \<Longrightarrow> i < n \<Longrightarrow> j < m \<Longrightarrow>
   op_row f A v ! i ! j = f (A ! i ! j) (v ! j)"
  by (simp add: op_row_def is_mat_def list_all_length)

lemma is_mat_op_row: "is_mat n m A \<Longrightarrow> length v = m \<Longrightarrow> is_mat n m (op_row f A v)"
  by (simp add: op_row_def is_mat_def list_all_length)

lemma col_op_nth:
  "is_mat n m A \<Longrightarrow> length v = n \<Longrightarrow> i < n \<Longrightarrow> j < m \<Longrightarrow>
   col_op f v A ! i ! j = f (v ! i) (A ! i ! j)"
  by (simp add: col_op_def is_mat_def list_all_length)

lemma is_mat_col_op: "is_mat n m A \<Longrightarrow> length v = n \<Longrightarrow> is_mat n m (col_op f v A)"
  by (simp add: col_op_def is_mat_def list_all_length)

lemma op_col_nth:
  "is_mat n m A \<Longrightarrow> length v = n \<Longrightarrow> i < n \<Longrightarrow> j < m \<Longrightarrow>
   op_col f A v ! i ! j = f (A ! i ! j) (v ! i)"
  by (simp add: op_col_def is_mat_def list_all_length)

lemma is_mat_op_col: "is_mat n m A \<Longrightarrow> length v = n \<Longrightarrow> is_mat n m (op_col f A v)"
  by (simp add: op_col_def is_mat_def list_all_length)

lemma squareform_pdist_nth:
  "i < length X \<Longrightarrow> j < length X \<Longrightarrow>
   squareform_pdist X ! i ! j =
     (if i = j then 0 else if i < j then sqeuclidean (X ! i) (X ! j)
      else sqeuclidean (X ! j) (X ! i))"
  by (simp add: squareform_pdist_def)

lemma is_mat_squareform_pdist: "is_mat (length X) (length X) (squareform_pdist X)"
  by (rule is_matI) (simp_all add: squareform_pdist_def)

section \<open>The spatial noise covariance, entry by entry\<close>

lemma K_noise_nth:
  assumes "is_mat n n dist2" "length noise_level = n" "i < n" "j < n"
  shows "K_noise noise_level dist2 w ! i ! j =
           noise_level ! i * (exp (- (dist2 ! i ! j) / w\<^sup>2 / 2) + (if i = j then 1 else 0) * 0.1)
             * noise_level ! j"
proof -
  let ?E = "mat_map exp (mat_map (\<lambda>d. - d / w\<^sup>2 / 2) dist2)"
  let ?J = "mat_map (\<lambda>e. e * 0.1) (eye n)"
  have E: "is_mat n n ?E" using assms(1) by (simp add: is_mat_mat_map)
  have J: "is_mat n n ?J" by (simp add: is_mat_mat_map is_mat_eye)
  have S: "is_mat n n (mat_map2 (+) ?E ?J)" using E J by (rule is_mat_mat_map2)
  have C: "is_mat n n (col_op (*) noise_level (mat_map2 (+) ?E ?J))"
    using S assms(2) by (rule is_mat_col_op)
  have "K_noise noise_level dist2 w ! i ! j
          = col_op (*) noise_level (mat_map2 (+) ?E ?J) ! i ! j * noise_level ! j"
    unfolding K_noise_def assms(2)
    using C assms by (simp add: op_row_nth [where n = n and m = n])
  also have "col_op (*) noise_level (mat_map2 (+) ?E ?J) ! i ! j
          = noise_level ! i * (?E ! i ! j + ?J ! i ! j)"
    using S E J assms
    by (simp add: col_op_nth [where n = n and m = n] mat_map2_nth [where n = n and m = n])
  also have "?E ! i ! j = exp (- (dist2 ! i ! j) / w\<^sup>2 / 2)"
    using assms
    by (simp add: mat_map_nth [where n = n and m = n] is_mat_mat_map)
  also have "?J ! i ! j = (if i = j then 1 else 0) * 0.1"
    using assms by (simp add: mat_map_nth [where n = n and m = n] is_mat_eye eye_nth)
  finally show ?thesis .
qed

lemma is_mat_K_noise:
  assumes "is_mat n n dist2" "length noise_level = n"
  shows "is_mat n n (K_noise noise_level dist2 w)"
  unfolding K_noise_def assms(2)
  by (intro is_mat_op_row is_mat_col_op is_mat_mat_map2 is_mat_mat_map is_mat_eye assms)



section \<open>The AR(1) loop\<close>


lemma length_mat_vec: "length (mat_vec A x) = length A"
  by (simp add: mat_vec_def)

lemma mat_vec_nth: "i < length A \<Longrightarrow> mat_vec A x ! i = dot (A ! i) x"
  by (simp add: mat_vec_def)

lemma length_draw: "length (draw g n t) = n"
  by (simp add: draw_def)

lemma draw_nth: "k < n \<Longrightarrow> draw g n t ! k = g (t * n + k)"
  by (simp add: draw_def)

text \<open>Two different draws read disjoint parts of the stream.\<close>

lemma draw_fresh:
  fixes t t' k k' n :: nat
  assumes "t \<noteq> t'" "k < n" "k' < n"
  shows "t * n + k \<noteq> t' * n + k'"
proof
  assume eq: "t * n + k = t' * n + k'"
  have "(t * n + k) div n = t" "(t' * n + k') div n = t'"
    using assms(2,3) by simp_all
  then show False using eq assms(1) by simp
qed

lemma randn_draw: "randn n (\<lambda>k. g (k + t * n)) = (draw g n t, \<lambda>k. g (k + Suc t * n))"
  by (simp add: randn_def draw_def ac_simps)

lemma randn_draw0: "randn n g = (draw g n 0, \<lambda>k. g (k + 1 * n))"
  by (simp add: randn_def draw_def)

lemma is_mat_zeros: "is_mat n m (zeros n m)"
  by (simp add: is_mat_def zeros_def list_all_length)

lemma is_mat_update:
  "is_mat n m A \<Longrightarrow> (i < n \<Longrightarrow> length r = m) \<Longrightarrow> is_mat n m (A[i := r])"
  by (cases "i < length A") (auto simp: is_mat_def list_all_length nth_list_update)

lemma length_ar1_first: "length L = n \<Longrightarrow> length rho1 = n \<Longrightarrow> length (ar1_first L rho1 z) = n"
  by (simp add: ar1_first_def length_mat_vec)

lemma length_ar1_next:
  "length L = n \<Longrightarrow> length rho1 = n \<Longrightarrow> length prev = n \<Longrightarrow> length (ar1_next L rho1 prev z) = n"
  by (simp add: ar1_next_def length_mat_vec)

lemma ar1_first_nth:
  "length L = n \<Longrightarrow> length rho1 = n \<Longrightarrow> v < n \<Longrightarrow>
   ar1_first L rho1 z ! v = mat_vec L z ! v / sqrt (1 - (rho1 ! v)\<^sup>2)"
  by (simp add: ar1_first_def length_mat_vec)

lemma ar1_next_nth:
  "length L = n \<Longrightarrow> length rho1 = n \<Longrightarrow> length prev = n \<Longrightarrow> v < n \<Longrightarrow>
   ar1_next L rho1 prev z ! v = prev ! v * rho1 ! v + mat_vec L z ! v"
  by (simp add: ar1_next_def length_mat_vec)

lemma ar1_step_pair:
  "ar1_step L rho1 n k (N, g) =
     (N[k := ar1_next L rho1 (N ! (k - 1)) (fst (randn n g))], snd (randn n g))"
  by (simp add: ar1_step_def split: prod.splits)

text \<open>The state of the loop after the iterations \<open>1, ..., k - 1\<close>.\<close>

lemma ar1_fold_Suc:
  "1 \<le> k \<Longrightarrow> fold (ar1_step L rho1 n) [1..<Suc k] s = ar1_step L rho1 n k (fold (ar1_step L rho1 n) [1..<k] s)"
  by simp

lemma ar1_fold_rng:
  "1 \<le> k \<Longrightarrow> snd (fold (ar1_step L rho1 n) [1..<k] (N, \<lambda>j. g (j + 1 * n))) = (\<lambda>j. g (j + k * n))"
proof (induction k)
  case 0 then show ?case by simp
next
  case (Suc k)
  show ?case
  proof (cases "k = 0")
    case True then show ?thesis by simp
  next
    case False
    then have k: "1 \<le> k" by simp
    obtain N' where F: "fold (ar1_step L rho1 n) [1..<k] (N, \<lambda>j. g (j + 1 * n)) = (N', \<lambda>j. g (j + k * n))"
      using Suc.IH [OF k] by (metis prod.collapse)
    show ?thesis
      unfolding ar1_fold_Suc [OF k] F by (simp add: ar1_step_pair randn_draw)
  qed
qed

lemma length_ar1_fold:
  "length (fst (fold (ar1_step L rho1 n) [1..<k] (N, g))) = length N"
proof (induction k)
  case 0 then show ?case by simp
next
  case (Suc k)
  show ?case
  proof (cases "k = 0")
    case True then show ?thesis by simp
  next
    case False
    then have k: "1 \<le> k" by simp
    obtain N' g' where F: "fold (ar1_step L rho1 n) [1..<k] (N, g) = (N', g')"
      by (metis prod.collapse)
    show ?thesis
      unfolding ar1_fold_Suc [OF k] F using Suc.IH F
      by (simp add: ar1_step_pair)
  qed
qed

lemma ar1_fold_is_mat:
  assumes "is_mat n_T n N" "length L = n" "length rho1 = n"
  shows "is_mat n_T n (fst (fold (ar1_step L rho1 n) [1..<k] (N, g)))"
proof (induction k)
  case 0 then show ?case using assms by simp
next
  case (Suc k)
  show ?case
  proof (cases "k = 0")
    case True then show ?thesis using assms by simp
  next
    case False
    then have k: "1 \<le> k" by simp
    obtain N' g' where F: "fold (ar1_step L rho1 n) [1..<k] (N, g) = (N', g')"
      by (metis prod.collapse)
    have N': "is_mat n_T n N'" using Suc.IH F by simp
    have "is_mat n_T n (N'[k := ar1_next L rho1 (N' ! (k - 1)) (fst (randn n g'))])"
    proof (rule is_mat_update [OF N'])
      assume "k < n_T"
      then have "length (N' ! (k - 1)) = n"
        using is_mat_row [OF N', of "k - 1"] by simp
      then show "length (ar1_next L rho1 (N' ! (k - 1)) (fst (randn n g'))) = n"
        using assms by (simp add: length_ar1_next)
    qed
    then show ?thesis
      unfolding ar1_fold_Suc [OF k] F by (simp add: ar1_step_pair)
  qed
qed

text \<open>Row \<open>t\<close> is final once iteration \<open>t\<close> has run.\<close>

lemma ar1_fold_stable:
  assumes "t < k" "k \<le> m"
  shows "fst (fold (ar1_step L rho1 n) [1..<m] s) ! t = fst (fold (ar1_step L rho1 n) [1..<k] s) ! t"
  using assms(2)
proof (induction m)
  case 0 then show ?case using assms by simp
next
  case (Suc m)
  show ?case
  proof (cases "k = Suc m")
    case True then show ?thesis by simp
  next
    case False
    then have km: "k \<le> m" using Suc.prems by simp
    then have m: "1 \<le> m" and tm: "t \<noteq> m" using assms(1) by simp_all
    obtain N' g' where F: "fold (ar1_step L rho1 n) [1..<m] s = (N', g')"
      by (metis prod.collapse)
    have "fst (fold (ar1_step L rho1 n) [1..<Suc m] s) ! t = N' ! t"
      unfolding ar1_fold_Suc [OF m] F using tm
      by (simp add: ar1_step_pair)
    then show ?thesis using Suc.IH [OF km] F by simp
  qed
qed

lemma ar1_fold_row:
  assumes "1 \<le> t" "t < length N"
  shows "fst (fold (ar1_step L rho1 n) [1..<Suc t] (N, \<lambda>j. g (j + 1 * n))) ! t =
           ar1_next L rho1 (fst (fold (ar1_step L rho1 n) [1..<t] (N, \<lambda>j. g (j + 1 * n))) ! (t - 1))
             (draw g n t)"
proof -
  obtain N' where F: "fold (ar1_step L rho1 n) [1..<t] (N, \<lambda>j. g (j + 1 * n)) = (N', \<lambda>j. g (j + t * n))"
    using ar1_fold_rng [OF assms(1), of L rho1 n N g] by (metis prod.collapse)
  have "length N' = length N"
    using F by (metis fst_conv length_ar1_fold)
  then show ?thesis
    unfolding ar1_fold_Suc [OF assms(1)] F using assms(2)
    by (simp add: ar1_step_pair randn_draw)
qed


lemma ar1_noise_spec:
  assumes "0 < n_T" "length L = n" "length rho1 = n"
  obtains noise where
    "ar1_noise L rho1 n_T n g = Inr (noise, \<lambda>j. g (j + n_T * n))"
    "is_mat n_T n noise"
    "noise ! 0 = ar1_first L rho1 (draw g n 0)"
    "\<And>t. 1 \<le> t \<Longrightarrow> t < n_T \<Longrightarrow> noise ! t = ar1_next L rho1 (noise ! (t - 1)) (draw g n t)"
proof -
  let ?N0 = "(zeros n_T n)[0 := ar1_first L rho1 (draw g n 0)]"
  let ?F = "\<lambda>k. fold (ar1_step L rho1 n) [1..<k] (?N0, \<lambda>j. g (j + 1 * n))"
  let ?noise = "fst (?F n_T)"
  have N0: "is_mat n_T n ?N0"
    by (rule is_mat_update [OF is_mat_zeros]) (simp add: length_ar1_first assms)
  have len0: "length ?N0 = n_T" by (simp add: zeros_def)
  have nT: "1 \<le> n_T" using assms(1) by simp
  have "ar1_noise L rho1 n_T n g = Inr (?F n_T)"
    using assms(1) by (simp add: ar1_noise_def randn_draw0)
  also have "?F n_T = (?noise, \<lambda>j. g (j + n_T * n))"
    using ar1_fold_rng [OF nT, of L rho1 n ?N0 g] by (metis prod.collapse)
  finally have 1: "ar1_noise L rho1 n_T n g = Inr (?noise, \<lambda>j. g (j + n_T * n))" .
  have 2: "is_mat n_T n ?noise"
    using N0 assms(2,3) by (rule ar1_fold_is_mat)
  have "?noise ! 0 = fst (?F 1) ! 0"
    using nT by (intro ar1_fold_stable) simp_all
  then have 3: "?noise ! 0 = ar1_first L rho1 (draw g n 0)"
    using assms(1) by (simp add: zeros_def)
  have 4: "?noise ! t = ar1_next L rho1 (?noise ! (t - 1)) (draw g n t)"
    if t: "1 \<le> t" "t < n_T" for t
  proof -
    have "?noise ! t = fst (?F (Suc t)) ! t"
      using t by (intro ar1_fold_stable) simp_all
    also have "\<dots> = ar1_next L rho1 (fst (?F t) ! (t - 1)) (draw g n t)"
      using t len0 by (intro ar1_fold_row) simp_all
    also have "fst (?F t) ! (t - 1) = ?noise ! (t - 1)"
      using t by (intro ar1_fold_stable [symmetric]) simp_all
    finally show ?thesis .
  qed
  show thesis using that [OF 1 2 3 4] .
qed

text \<open>
  C3. For \<open>n_T \<ge> 1\<close>, coefficients \<open>rho1\<close> with \<open>\<bar>rho1\<^sub>v\<bar> < 1\<close> and any factor \<open>L_noise\<close>,
  the loop returns a noise array whose row 0 is \<open>(L_noise @ z\<^sub>0) / sqrt (1 - rho1\<^sup>2)\<close>,
  voxel by voxel, and whose row \<open>t\<close>, for \<open>1 \<le> t < n_T\<close>, is
  \<open>rho1 * noise[t - 1] + L_noise @ z\<^sub>t\<close>; \<open>z\<^sub>t\<close> is the \<open>t\<close>-th block of \<open>n_V\<close> values of the
  generator, so no value is used twice.
\<close>

theorem C3_ar1_recurrence:
  assumes "1 \<le> n_T" and "is_mat n_V n_V L_noise" and "length rho1 = n_V"
    and "\<forall>v<n_V. \<bar>rho1 ! v\<bar> < 1"
  shows "\<exists>noise g'. ar1_noise L_noise rho1 n_T n_V g = Inr (noise, g') \<and>
           is_mat n_T n_V noise \<and>
           (\<forall>v<n_V. noise ! 0 ! v =
                      mat_vec L_noise (draw g n_V 0) ! v / sqrt (1 - (rho1 ! v)\<^sup>2)) \<and>
           (\<forall>t. 1 \<le> t \<and> t < n_T \<longrightarrow>
              (\<forall>v<n_V. noise ! t ! v =
                         rho1 ! v * noise ! (t - 1) ! v + mat_vec L_noise (draw g n_V t) ! v))"
proof -
  have lenL: "length L_noise = n_V" using assms(2) by (simp add: is_mat_def)
  from assms(1) have "0 < n_T" by simp
  from ar1_noise_spec [OF this lenL assms(3), of g] obtain noise where
    N: "ar1_noise L_noise rho1 n_T n_V g = Inr (noise, \<lambda>j. g (j + n_T * n_V))"
       "is_mat n_T n_V noise"
       "noise ! 0 = ar1_first L_noise rho1 (draw g n_V 0)"
       "\<And>t. 1 \<le> t \<Longrightarrow> t < n_T \<Longrightarrow>
          noise ! t = ar1_next L_noise rho1 (noise ! (t - 1)) (draw g n_V t)"
    by blast
  have first: "\<forall>v<n_V. noise ! 0 ! v =
                 mat_vec L_noise (draw g n_V 0) ! v / sqrt (1 - (rho1 ! v)\<^sup>2)"
    using N(3) lenL assms(3) by (simp add: ar1_first_nth)
  have later: "noise ! t ! v = rho1 ! v * noise ! (t - 1) ! v + mat_vec L_noise (draw g n_V t) ! v"
    if "1 \<le> t" "t < n_T" "v < n_V" for t v
  proof -
    have "length (noise ! (t - 1)) = n_V"
      using is_mat_row [OF N(2), of "t - 1"] that by simp
    then show ?thesis
      using N(4) [OF that(1,2)] lenL assms(3) that(3) by (simp add: ar1_next_nth)
  qed
  show ?thesis using N(1,2) first later by blast
qed


theorem C3_ar1_recurrence_witness:
  "\<exists>noise g'. ar1_noise [[1]] [1 / 2] 2 1 real = Inr (noise, g') \<and>
     is_mat 2 1 noise \<and>
     (\<forall>v<1. noise ! 0 ! v = mat_vec [[1]] (draw real 1 0) ! v / sqrt (1 - ([1 / 2] ! v)\<^sup>2)) \<and>
     (\<forall>t. 1 \<le> t \<and> t < 2 \<longrightarrow>
        (\<forall>v<1. noise ! t ! v =
                  [1 / 2] ! v * noise ! (t - 1) ! v + mat_vec [[1]] (draw real 1 t) ! v))"
  using C3_ar1_recurrence [of 2 1 "[[1]]" "[1 / 2]" real] by (simp add: is_mat_def)

lemma ar1_first_zero: "length L = n \<Longrightarrow> ar1_first L (replicate n 0) z = mat_vec L z"
  by (rule nth_equalityI) (simp_all add: ar1_first_def length_mat_vec)

lemma ar1_next_zero:
  "length L = n \<Longrightarrow> length prev = n \<Longrightarrow> ar1_next L (replicate n 0) prev z = mat_vec L z"
  by (rule nth_equalityI) (simp_all add: ar1_next_def length_mat_vec)

text \<open>
  C7. With \<open>rho1 = 0\<close> for every voxel the AR(1) loop, before the offset is added, returns
  what independent sampling returns from the same generator: row \<open>t\<close> is
  \<open>L_noise @ z\<^sub>t\<close> for every \<open>t\<close>, and the generator is left in the same state.
\<close>

theorem C7_zero_rho1_is_iid:
  assumes "0 < n_T" and "is_mat n_V n_V L_noise"
  shows "ar1_noise L_noise (replicate n_V 0) n_T n_V g = Inr (iid_noise L_noise n_T n_V g)"
proof -
  have lenL: "length L_noise = n_V" using assms(2) by (simp add: is_mat_def)
  from ar1_noise_spec [OF assms(1) lenL, of "replicate n_V 0" g] obtain noise where
    N: "ar1_noise L_noise (replicate n_V 0) n_T n_V g = Inr (noise, \<lambda>j. g (j + n_T * n_V))"
       "is_mat n_T n_V noise"
       "noise ! 0 = ar1_first L_noise (replicate n_V 0) (draw g n_V 0)"
       "\<And>t. 1 \<le> t \<Longrightarrow> t < n_T \<Longrightarrow>
          noise ! t = ar1_next L_noise (replicate n_V 0) (noise ! (t - 1)) (draw g n_V t)"
    by auto
  have row: "noise ! t = mat_vec L_noise (draw g n_V t)" if "t < n_T" for t
  proof (cases "t = 0")
    case True
    then show ?thesis using N(3) lenL by (simp add: ar1_first_zero)
  next
    case False
    then have t: "1 \<le> t" by simp
    have "length (noise ! (t - 1)) = n_V"
      using is_mat_row [OF N(2), of "t - 1"] that by simp
    then show ?thesis using N(4) [OF t that] lenL by (simp add: ar1_next_zero)
  qed
  have "noise = map (\<lambda>t. mat_vec L_noise (draw g n_V t)) [0..<n_T]"
  proof (rule nth_equalityI)
    show "length noise = length (map (\<lambda>t. mat_vec L_noise (draw g n_V t)) [0..<n_T])"
      using N(2) by (simp add: is_mat_def)
  next
    fix t assume "t < length noise"
    then have "t < n_T" using N(2) by (simp add: is_mat_def)
    then show "noise ! t = map (\<lambda>t. mat_vec L_noise (draw g n_V t)) [0..<n_T] ! t"
      by (simp add: row)
  qed
  then show ?thesis using N(1) by (simp add: iid_noise_def)
qed

theorem C7_zero_rho1_is_iid_witness:
  "ar1_noise [[2]] (replicate 1 0) 2 1 real = Inr (iid_noise [[2]] 2 1 real)"
  using C7_zero_rho1_is_iid [of 2 1 "[[2]]" real] by (simp add: is_mat_def)

section \<open>Cholesky factorisation: success and result\<close>


lemma square_iff: "square A \<longleftrightarrow> (\<forall>i<length A. length (A ! i) = length A)"
  by (simp add: square_def list_all_length)

lemma square_is_mat: "square A \<longleftrightarrow> is_mat (length A) (length A) A"
  by (simp add: square_def is_mat_def)

lemma length_chol_col: "length (chol_col A) = length A - 1"
  by (simp add: chol_col_def)

lemma chol_col_nth: "i < length A - 1 \<Longrightarrow> chol_col A ! i = A ! Suc i ! 0 / sqrt (A ! 0 ! 0)"
  by (simp add: chol_col_def)

lemma length_chol_rest: "length (chol_rest A) = length A - 1"
  by (simp add: chol_rest_def)

lemma chol_rest_nth:
  "i < length A - 1 \<Longrightarrow> j < length A - 1 \<Longrightarrow>
   chol_rest A ! i ! j = A ! Suc i ! Suc j - chol_col A ! i * chol_col A ! j"
  by (simp add: chol_rest_def)

lemma square_chol_rest: "square (chol_rest A)"
  by (simp add: square_iff chol_rest_def)

lemma symmetric_chol_rest: "symmetric A \<Longrightarrow> symmetric (chol_rest A)"
  by (simp add: symmetric_def square_chol_rest length_chol_rest chol_rest_nth mult.commute)

lemma quad_form_Cons:
  assumes "length A = Suc n"
  shows "quad_form A (t # x) =
           t * A ! 0 ! 0 * t + (\<Sum>j<n. t * A ! 0 ! Suc j * x ! j)
           + (\<Sum>i<n. x ! i * A ! Suc i ! 0 * t)
           + (\<Sum>i<n. \<Sum>j<n. x ! i * A ! Suc i ! Suc j * x ! j)"
  unfolding quad_form_def assms sum.lessThan_Suc_shift
  by (simp add: sum.distrib algebra_simps del: sum.lessThan_Suc)

lemma quad_form_chol:
  assumes len: "length A = Suc n"
    and sym: "\<And>i. i < n \<Longrightarrow> A ! 0 ! Suc i = A ! Suc i ! 0"
    and pos: "0 < A ! 0 ! 0"
  shows "quad_form A (t # x) =
           (sqrt (A ! 0 ! 0) * t + (\<Sum>i<n. chol_col A ! i * x ! i))\<^sup>2
           + quad_form (chol_rest A) x"
proof -
  let ?a = "A ! 0 ! 0" and ?l = "chol_col A"
  let ?s = "sqrt ?a"
  let ?p = "\<Sum>i<n. ?l ! i * x ! i"
  let ?B = "\<Sum>i<n. \<Sum>j<n. x ! i * A ! Suc i ! Suc j * x ! j"
  have s2: "?s * ?s = ?a" using pos by simp
  have s0: "?s \<noteq> 0" using pos by simp
  have l: "?s * ?l ! i = A ! Suc i ! 0" if "i < n" for i
    using that len s0 by (simp add: chol_col_nth)
  have cross1: "(\<Sum>i<n. x ! i * A ! Suc i ! 0 * t) = t * ?s * ?p"
  proof -
    have "(\<Sum>i<n. x ! i * A ! Suc i ! 0 * t) = (\<Sum>i<n. t * ?s * (?l ! i * x ! i))"
      by (rule sum.cong) (simp_all add: l [symmetric])
    then show ?thesis by (simp add: sum_distrib_left)
  qed
  have cross2: "(\<Sum>j<n. t * A ! 0 ! Suc j * x ! j) = t * ?s * ?p"
  proof -
    have "(\<Sum>j<n. t * A ! 0 ! Suc j * x ! j) = (\<Sum>i<n. x ! i * A ! Suc i ! 0 * t)"
      by (rule sum.cong) (simp_all add: sym)
    then show ?thesis using cross1 by simp
  qed
  have rest: "quad_form (chol_rest A) x = ?B - ?p * ?p"
  proof -
    have "quad_form (chol_rest A) x = (\<Sum>i<n. \<Sum>j<n. x ! i * chol_rest A ! i ! j * x ! j)"
      by (simp add: quad_form_def length_chol_rest len)
    also have "\<dots>
            = (\<Sum>i<n. \<Sum>j<n. x ! i * A ! Suc i ! Suc j * x ! j - (?l ! i * x ! i) * (?l ! j * x ! j))"
      by (intro sum.cong refl) (simp add: chol_rest_nth len algebra_simps)
    also have "\<dots> = ?B - (\<Sum>i<n. \<Sum>j<n. (?l ! i * x ! i) * (?l ! j * x ! j))"
      by (simp add: sum_subtractf)
    also have "(\<Sum>i<n. \<Sum>j<n. (?l ! i * x ! i) * (?l ! j * x ! j)) = ?p * ?p"
      by (simp add: sum_product)
    finally show ?thesis .
  qed
  have "quad_form A (t # x) = t * ?a * t + t * ?s * ?p + t * ?s * ?p + ?B"
    unfolding quad_form_Cons [OF len] cross1 cross2 ..
  also have "\<dots> = (?s * t + ?p)\<^sup>2 + (?B - ?p * ?p)"
    using s2 by (simp add: power2_eq_square algebra_simps)
  finally show ?thesis using rest by simp
qed


declare cholesky.simps [simp del]

lemma symmetric_square: "symmetric A \<Longrightarrow> square A"
  by (simp add: symmetric_def)

lemma symmetric_nth: "symmetric A \<Longrightarrow> i < length A \<Longrightarrow> j < length A \<Longrightarrow> A ! i ! j = A ! j ! i"
  by (simp add: symmetric_def)

lemma quad_form_zero_tail:
  assumes "length A = Suc n" "\<And>i. i < n \<Longrightarrow> x ! i = 0"
  shows "quad_form A (t # x) = t * A ! 0 ! 0 * t"
  unfolding quad_form_Cons [OF assms(1)] using assms(2) by simp

lemma pos_def_pivot:
  assumes "pos_def A" "length A = Suc n"
  shows "0 < A ! 0 ! 0"
proof -
  have "\<exists>i<length A. (1 # replicate n (0::real)) ! i \<noteq> 0"
    using assms(2) by (intro exI [of _ 0]) simp
  moreover have "length (1 # replicate n (0::real)) = length A"
    using assms(2) by simp
  ultimately have "0 < quad_form A (1 # replicate n 0)"
    using assms(1) unfolding pos_def_def by blast
  then show ?thesis
    by (simp add: quad_form_zero_tail [OF assms(2)])
qed

lemma pos_def_chol_rest:
  assumes pd: "pos_def A" and len: "length A = Suc n"
    and sym: "\<And>i. i < n \<Longrightarrow> A ! 0 ! Suc i = A ! Suc i ! 0"
  shows "pos_def (chol_rest A)"
  unfolding pos_def_def
proof (intro allI impI)
  fix x :: vec
  assume lx: "length x = length (chol_rest A)" and nz: "\<exists>i<length (chol_rest A). x ! i \<noteq> 0"
  have pos: "0 < A ! 0 ! 0" using pd len by (rule pos_def_pivot)
  define p where "p = (\<Sum>i<n. chol_col A ! i * x ! i)"
  define t where "t = - p / sqrt (A ! 0 ! 0)"
  have "sqrt (A ! 0 ! 0) * t + p = 0"
    using pos by (simp add: t_def)
  then have eq: "quad_form A (t # x) = quad_form (chol_rest A) x"
    using quad_form_chol [OF len sym pos, of t x] by (simp add: p_def)
  from nz obtain i where "i < n" "x ! i \<noteq> 0"
    by (auto simp: length_chol_rest len)
  then have "\<exists>i<length A. (t # x) ! i \<noteq> 0"
    unfolding len by (intro exI [of _ "Suc i"]) simp
  moreover have "length (t # x) = length A"
    using lx by (simp add: length_chol_rest len)
  ultimately have "0 < quad_form A (t # x)"
    using pd unfolding pos_def_def by blast
  then show "0 < quad_form (chol_rest A) x" using eq by simp
qed

lemma pos_def_from_chol_rest:
  assumes pos: "0 < A ! 0 ! 0" and pd: "pos_def (chol_rest A)" and len: "length A = Suc n"
    and sym: "\<And>i. i < n \<Longrightarrow> A ! 0 ! Suc i = A ! Suc i ! 0"
  shows "pos_def A"
  unfolding pos_def_def
proof (intro allI impI)
  fix c :: vec
  assume lc: "length c = length A" and nz: "\<exists>i<length A. c ! i \<noteq> 0"
  then obtain t x where c: "c = t # x" and lx: "length x = n"
    using len by (cases c) auto
  have eq: "quad_form A (t # x) =
              (sqrt (A ! 0 ! 0) * t + (\<Sum>i<n. chol_col A ! i * x ! i))\<^sup>2
              + quad_form (chol_rest A) x"
    by (rule quad_form_chol [OF len sym pos])
  show "0 < quad_form A c"
  proof (cases "\<exists>i<n. x ! i \<noteq> 0")
    case True
    then have "0 < quad_form (chol_rest A) x"
      using pd lx unfolding pos_def_def by (simp add: length_chol_rest len)
    moreover have "0 \<le> (sqrt (A ! 0 ! 0) * t + (\<Sum>i<n. chol_col A ! i * x ! i))\<^sup>2"
      by simp
    ultimately show ?thesis unfolding c eq by linarith
  next
    case False
    then have x0: "\<And>i. i < n \<Longrightarrow> x ! i = 0" by blast
    have "t \<noteq> 0"
    proof
      assume "t = 0"
      from nz obtain i where i: "i < Suc n" "c ! i \<noteq> 0" using len by auto
      then show False using c \<open>t = 0\<close> x0 by (cases i) auto
    qed
    then have "0 < t\<^sup>2" by simp
    then have "0 < A ! 0 ! 0 * t\<^sup>2" using pos by (rule mult_pos_pos [rotated])
    then have "0 < t * A ! 0 ! 0 * t" by (simp add: power2_eq_square mult.commute mult.left_commute)
    then show ?thesis
      unfolding c by (simp add: quad_form_zero_tail [OF len x0])
  qed
qed

lemma pos_def_chol_iff:
  assumes "symmetric A" "length A = Suc n"
  shows "pos_def A \<longleftrightarrow> 0 < A ! 0 ! 0 \<and> pos_def (chol_rest A)"
proof -
  have sym: "A ! 0 ! Suc i = A ! Suc i ! 0" if "i < n" for i
    using assms that by (simp add: symmetric_nth)
  show ?thesis
    using pos_def_pivot [OF _ assms(2)] pos_def_chol_rest [OF _ assms(2) sym]
      pos_def_from_chol_rest [OF _ _ assms(2) sym]
    by blast
qed

lemma cholesky_Nil: "cholesky [] = Inr []"
  by (subst cholesky.simps) (simp add: square_def)

lemma cholesky_step:
  assumes "square A" "A \<noteq> []"
  shows "cholesky A =
           (if A ! 0 ! 0 \<le> 0 then Inl (LinAlgError NotPositiveDefinite)
            else case cholesky (chol_rest A) of
                   Inl e \<Rightarrow> Inl e
                 | Inr L' \<Rightarrow> Inr (chol_assemble (sqrt (A ! 0 ! 0)) (chol_col A) L'))"
  using assms by (subst cholesky.simps) simp

lemma cholesky_not_square: "\<not> square A \<Longrightarrow> cholesky A = Inl (LinAlgError NotSquare)"
  by (subst cholesky.simps) simp

lemma cholesky_succeeds_iff:
  "symmetric A \<Longrightarrow> (\<exists>L. cholesky A = Inr L) \<longleftrightarrow> pos_def A"
proof (induction "length A" arbitrary: A)
  case 0
  then show ?case by (simp add: cholesky_Nil pos_def_def)
next
  case (Suc n)
  have len: "length A = Suc n" using Suc.hyps(2) by simp
  then have ne: "A \<noteq> []" by auto
  have sq: "square A" using Suc.prems by (rule symmetric_square)
  have IH: "(\<exists>L. cholesky (chol_rest A) = Inr L) \<longleftrightarrow> pos_def (chol_rest A)"
    using Suc.hyps(1) [of "chol_rest A"] Suc.prems len
    by (simp add: length_chol_rest symmetric_chol_rest)
  show ?case
    unfolding pos_def_chol_iff [OF Suc.prems len] cholesky_step [OF sq ne] IH [symmetric]
    by (auto split: sum.splits)
qed




lemma length_chol_assemble:
  "length l = n \<Longrightarrow> length L' = n \<Longrightarrow> length (chol_assemble d l L') = Suc n"
  by (simp add: chol_assemble_def)

lemma chol_assemble_0: "chol_assemble d l L' ! 0 = d # replicate (length l) 0"
  by (simp add: chol_assemble_def)

lemma chol_assemble_Suc:
  "length l = n \<Longrightarrow> length L' = n \<Longrightarrow> i < n \<Longrightarrow> chol_assemble d l L' ! Suc i = l ! i # L' ! i"
  by (simp add: chol_assemble_def)

lemma is_mat_chol_assemble:
  assumes "length l = n" "is_mat n n L'"
  shows "is_mat (Suc n) (Suc n) (chol_assemble d l L')"
proof (rule is_matI)
  show "length (chol_assemble d l L') = Suc n"
    using assms by (simp add: length_chol_assemble is_mat_def)
next
  fix i assume "i < Suc n"
  then show "length (chol_assemble d l L' ! i) = Suc n"
    using assms is_mat_row [OF assms(2)]
    by (cases i) (simp_all add: chol_assemble_0 chol_assemble_Suc is_mat_def)
qed

lemma chol_factor_assemble:
  assumes len: "length A = Suc n" and sym: "symmetric A" and pos: "0 < A ! 0 ! 0"
    and IH: "chol_factor (chol_rest A) L'"
  shows "chol_factor A (chol_assemble (sqrt (A ! 0 ! 0)) (chol_col A) L')"
proof -
  let ?d = "sqrt (A ! 0 ! 0)" and ?l = "chol_col A"
  let ?L = "chol_assemble ?d ?l L'"
  have ll: "length ?l = n" using len by (simp add: length_chol_col)
  have L': "is_mat n n L'" using IH len by (simp add: chol_factor_def length_chol_rest)
  have lL': "length L' = n" using L' by (simp add: is_mat_def)
  have row: "length (L' ! i) = n" if "i < n" for i using is_mat_row [OF L' that] .
  have tri': "L' ! i ! j = 0" if "i < n" "j < n" "i < j" for i j
    using IH len that by (simp add: chol_factor_def length_chol_rest)
  have pos': "0 < L' ! i ! i" if "i < n" for i
    using IH len that by (simp add: chol_factor_def length_chol_rest)
  have prod': "(\<Sum>k<n. L' ! i ! k * L' ! j ! k) = chol_rest A ! i ! j" if "i < n" "j < n" for i j
    using IH len that by (simp add: chol_factor_def length_chol_rest)
  have d2: "?d * ?d = A ! 0 ! 0" using pos by simp
  have d0: "?d \<noteq> 0" using pos by simp
  have dl: "?d * ?l ! i = A ! Suc i ! 0" if "i < n" for i
    using that len d0 by (simp add: chol_col_nth)
  have L0: "?L ! 0 = ?d # replicate n 0" by (simp add: chol_assemble_0 ll)
  have LS: "?L ! Suc i = ?l ! i # L' ! i" if "i < n" for i
    using ll lL' that by (rule chol_assemble_Suc)
  have 1: "is_mat (length A) (length A) ?L"
    unfolding len using ll L' by (rule is_mat_chol_assemble)
  have 2: "?L ! i ! j = 0" if ij: "i < Suc n" "j < Suc n" "i < j" for i j
  proof (cases i)
    case 0
    then obtain j' where "j = Suc j'" "j' < n" using ij by (cases j) auto
    then show ?thesis using 0 by (simp add: L0)
  next
    case (Suc i')
    then obtain j' where "j = Suc j'" "j' < n" "i' < j'" "i' < n" using ij by (cases j) auto
    then show ?thesis using Suc by (simp add: LS tri')
  qed
  have 3: "0 < ?L ! i ! i" if "i < Suc n" for i
    using that pos by (cases i) (simp_all add: L0 LS pos')
  have 4: "(\<Sum>k<Suc n. ?L ! i ! k * ?L ! j ! k) = A ! i ! j" if i: "i < Suc n" and j: "j < Suc n" for i j
  proof -
    have split: "(\<Sum>k<Suc n. ?L ! i ! k * ?L ! j ! k)
                   = ?L ! i ! 0 * ?L ! j ! 0 + (\<Sum>k<n. ?L ! i ! Suc k * ?L ! j ! Suc k)"
      by (rule sum.lessThan_Suc_shift)
    show ?thesis
    proof (cases i)
      case i0: 0
      show ?thesis
      proof (cases j)
        case 0
        then show ?thesis unfolding split using i0 d2 by (simp add: L0)
      next
        case (Suc j')
        then have j': "j' < n" using j by simp
        have "A ! 0 ! Suc j' = A ! Suc j' ! 0"
          using sym len j' by (simp add: symmetric_nth)
        then show ?thesis unfolding split using i0 Suc j' by (simp add: L0 LS dl)
      qed
    next
      case iS: (Suc i')
      then have i': "i' < n" using i by simp
      show ?thesis
      proof (cases j)
        case 0
        then show ?thesis
          unfolding split using iS i' dl [OF i'] by (simp add: L0 LS mult.commute)
      next
        case (Suc j')
        then have j': "j' < n" using j by simp
        show ?thesis
          unfolding split using iS Suc i' j' prod' [OF i' j']
          by (simp add: LS chol_rest_nth len)
      qed
    qed
  qed
  show ?thesis
    unfolding chol_factor_def len using 1 2 3 4 by (simp add: len)
qed

lemma cholesky_factor:
  "symmetric A \<Longrightarrow> cholesky A = Inr L \<Longrightarrow> chol_factor A L"
proof (induction "length A" arbitrary: A L)
  case 0
  then show ?case by (simp add: cholesky_Nil chol_factor_def is_mat_def)
next
  case (Suc n)
  have len: "length A = Suc n" using Suc.hyps(2) by simp
  then have ne: "A \<noteq> []" by auto
  have sq: "square A" using Suc.prems(1) by (rule symmetric_square)
  from Suc.prems(2) obtain L' where
    pos: "0 < A ! 0 ! 0" and L': "cholesky (chol_rest A) = Inr L'"
    and L: "L = chol_assemble (sqrt (A ! 0 ! 0)) (chol_col A) L'"
    unfolding cholesky_step [OF sq ne] by (auto split: if_splits sum.splits)
  have "chol_factor (chol_rest A) L'"
    using Suc.hyps(1) [of "chol_rest A" L'] len Suc.prems(1) L'
    by (simp add: length_chol_rest symmetric_chol_rest)
  then show ?case
    unfolding L using len Suc.prems(1) pos by (intro chol_factor_assemble)
qed

section \<open>Positive definite matrices and the ideal covariance\<close>


lemma quad_form_entries:
  assumes "length A = n" "\<And>i j. i < n \<Longrightarrow> j < n \<Longrightarrow> A ! i ! j = f i j"
  shows "quad_form A c = (\<Sum>i<n. \<Sum>j<n. c ! i * f i j * c ! j)"
  unfolding quad_form_def assms(1)
  by (intro sum.cong refl) (simp add: assms(2))

lemma quad_form_diag:
  fixes c w :: "nat \<Rightarrow> real"
  shows "(\<Sum>i<n. \<Sum>j<n. c i * (if i = j then w i else 0) * c j) = (\<Sum>i<n. w i * (c i)\<^sup>2)"
proof (rule sum.cong [OF refl])
  fix i assume "i \<in> {..<n}"
  have "(\<Sum>j<n. c i * (if i = j then w i else 0) * c j)
          = (\<Sum>j<n. if i = j then c i * w i * c j else 0)"
    by (intro sum.cong refl) simp
  also have "\<dots> = c i * w i * c i"
    using \<open>i \<in> {..<n}\<close> by (simp add: sum.delta')
  finally show "(\<Sum>j<n. c i * (if i = j then w i else 0) * c j) = w i * (c i)\<^sup>2"
    by (simp add: power2_eq_square mult.commute mult.left_commute)
qed

lemma pos_def_diag_plus:
  assumes len: "length A = n"
    and ent: "\<And>i j. i < n \<Longrightarrow> j < n \<Longrightarrow> A ! i ! j = g i j + (if i = j then w i else 0)"
    and w: "\<And>i. i < n \<Longrightarrow> 0 < w i"
    and psd: "\<And>c :: nat \<Rightarrow> real. 0 \<le> (\<Sum>i<n. \<Sum>j<n. c i * g i j * c j)"
  shows "pos_def A"
  unfolding pos_def_def
proof (intro allI impI)
  fix c :: vec
  assume "length c = length A" and "\<exists>i<length A. c ! i \<noteq> 0"
  then obtain k where k: "k < n" "c ! k \<noteq> 0" using len by auto
  have "quad_form A c = (\<Sum>i<n. \<Sum>j<n. c ! i * (g i j + (if i = j then w i else 0)) * c ! j)"
    using len ent by (rule quad_form_entries)
  also have "\<dots> = (\<Sum>i<n. \<Sum>j<n. c ! i * g i j * c ! j)
                  + (\<Sum>i<n. \<Sum>j<n. c ! i * (if i = j then w i else 0) * c ! j)"
    by (simp add: algebra_simps sum.distrib)
  also have "(\<Sum>i<n. \<Sum>j<n. c ! i * (if i = j then w i else 0) * c ! j) = (\<Sum>i<n. w i * (c ! i)\<^sup>2)"
    by (rule quad_form_diag)
  finally have eq: "quad_form A c = (\<Sum>i<n. \<Sum>j<n. c ! i * g i j * c ! j) + (\<Sum>i<n. w i * (c ! i)\<^sup>2)" .
  have "0 < (\<Sum>i<n. w i * (c ! i)\<^sup>2)"
  proof (rule sum_pos2 [where i = k])
    show "0 < w k * (c ! k)\<^sup>2" using k w by simp
    show "0 \<le> w i * (c ! i)\<^sup>2" if "i \<in> {..<n}" for i
      using that w [of i] by simp
  qed (use k in simp_all)
  then show "0 < quad_form A c"
    using psd [of "\<lambda>i. c ! i"] unfolding eq by linarith
qed

lemma set_entry_ok:
  assumes "is_mat n m A" "i < n" "j < m"
  shows "set_entry A i j x = Inr (A[i := (A ! i)[j := x]])"
  using assms is_mat_row [OF assms(1,2)] by (simp add: set_entry_def is_mat_def)

lemma set_entry_nth:
  assumes "is_mat n m A" "i < n" "j < m" "i' < n" "j' < m"
  shows "A[i := (A ! i)[j := x]] ! i' ! j' = (if i' = i \<and> j' = j then x else A ! i' ! j')"
  using assms is_mat_row [OF assms(1,2)] by (auto simp: is_mat_def nth_list_update)

lemma set_diag_loop_spec:
  assumes "is_mat n n A" "\<And>c. c \<in> set cs \<Longrightarrow> c < n"
  shows "\<exists>U. set_diag_loop cs A = Inr U \<and> is_mat n n U \<and>
           (\<forall>i<n. \<forall>j<n. U ! i ! j = (if i = j \<and> i \<in> set cs then 1 else A ! i ! j))"
  using assms
proof (induction cs arbitrary: A)
  case Nil
  then show ?case by simp
next
  case (Cons c cs)
  let ?A' = "A[c := (A ! c)[c := 1]]"
  have c: "c < n" using Cons.prems(2) by simp
  have step: "set_entry A c c 1 = Inr ?A'"
    using Cons.prems(1) c c by (rule set_entry_ok)
  have A': "is_mat n n ?A'"
    using Cons.prems(1) is_mat_row [OF Cons.prems(1) c] by (intro is_mat_update) simp_all
  from Cons.IH [OF A'] Cons.prems(2) obtain U where
    U: "set_diag_loop cs ?A' = Inr U" "is_mat n n U"
       "\<forall>i<n. \<forall>j<n. U ! i ! j = (if i = j \<and> i \<in> set cs then 1 else ?A' ! i ! j)"
    by auto
  have "U ! i ! j = (if i = j \<and> i \<in> set (c # cs) then 1 else A ! i ! j)"
    if "i < n" "j < n" for i j
    using U(3) that set_entry_nth [OF Cons.prems(1) c c that] by auto
  then show ?case using step U(1,2) by simp
qed

lemma set_block_nth:
  assumes "is_mat n m A" "i < n" "j < m"
  shows "set_block lo hi x A ! i ! j =
           (if lo \<le> i \<and> i < hi \<and> lo \<le> j \<and> j < hi then x else A ! i ! j)"
  using assms is_mat_row [OF assms(1,2)] by (simp add: set_block_def is_mat_def)

lemma is_mat_set_block: "is_mat n m A \<Longrightarrow> is_mat n m (set_block lo hi x A)"
  by (rule is_matI) (simp_all add: set_block_def is_mat_def list_all_length)

text \<open>The entries of the ideal covariance.\<close>

lemma ideal_cov_spec:
  assumes "12 \<le> n_C"
  shows "\<exists>U. ideal_cov n_C = Inr U \<and> is_mat n_C n_C U \<and>
           (\<forall>i<n_C. \<forall>j<n_C. U ! i ! j =
              (if 8 \<le> i \<and> i < 12 \<and> 8 \<le> j \<and> j < 12 then (if i = j then 1 else 0.8)
               else if i = j then 0.6 else 0))"
proof -
  let ?A = "set_block 8 12 0.8 (mat_map (\<lambda>e. e * 0.6) (eye n_C))"
  have E: "is_mat n_C n_C (mat_map (\<lambda>e. e * 0.6) (eye n_C))"
    by (intro is_mat_mat_map is_mat_eye)
  have A: "is_mat n_C n_C ?A" using E by (rule is_mat_set_block)
  have ent: "?A ! i ! j = (if 8 \<le> i \<and> i < 12 \<and> 8 \<le> j \<and> j < 12 then 0.8
                           else if i = j then 0.6 else 0)"
    if ij: "i < n_C" "j < n_C" for i j
  proof -
    have "?A ! i ! j = (if 8 \<le> i \<and> i < 12 \<and> 8 \<le> j \<and> j < 12 then 0.8
                        else mat_map (\<lambda>e. e * 0.6) (eye n_C) ! i ! j)"
      using E ij by (rule set_block_nth)
    also have "mat_map (\<lambda>e. e * 0.6) (eye n_C) ! i ! j = eye n_C ! i ! j * 0.6"
      using is_mat_eye ij by (rule mat_map_nth)
    also have "eye n_C ! i ! j = (if i = j then 1 else 0)"
      using ij by (rule eye_nth)
    finally show ?thesis by simp
  qed
  have "\<And>c. c \<in> set [8..<12] \<Longrightarrow> c < n_C" using assms by (simp only: set_upt) simp
  from set_diag_loop_spec [OF A this] obtain U where
    U: "set_diag_loop [8..<12] ?A = Inr U" "is_mat n_C n_C U"
       "\<forall>i<n_C. \<forall>j<n_C. U ! i ! j = (if i = j \<and> i \<in> set [8..<12] then 1 else ?A ! i ! j)"
    by blast
  have "U ! i ! j = (if 8 \<le> i \<and> i < 12 \<and> 8 \<le> j \<and> j < 12 then (if i = j then 1 else 0.8)
                      else if i = j then 0.6 else 0)"
    if "i < n_C" "j < n_C" for i j
    using U(3) that ent [OF that] by (simp only: set_upt) auto
  then show ?thesis using U(1,2) by (auto simp: ideal_cov_def)
qed


lemma set_diag_loop_out_of_range:
  assumes "is_mat n n A" "\<exists>c\<in>set cs. n \<le> c"
  shows "set_diag_loop cs A = Inl IndexError"
  using assms
proof (induction cs arbitrary: A)
  case Nil
  then show ?case by simp
next
  case (Cons c cs)
  show ?case
  proof (cases "c < n")
    case False
    then have "set_entry A c c 1 = Inl IndexError"
      using Cons.prems(1) by (simp add: set_entry_def is_mat_def)
    then show ?thesis by simp
  next
    case True
    let ?A' = "A[c := (A ! c)[c := 1]]"
    have step: "set_entry A c c 1 = Inr ?A'"
      using Cons.prems(1) True True by (rule set_entry_ok)
    have A': "is_mat n n ?A'"
      using Cons.prems(1) is_mat_row [OF Cons.prems(1) True] by (intro is_mat_update) simp_all
    have "\<exists>c\<in>set cs. n \<le> c" using Cons.prems(2) True by auto
    then show ?thesis using Cons.IH [OF A'] step by simp
  qed
qed

text \<open>With fewer than 12 conditions the loop over \<^verbatim>\<open>range(8, 12)\<close> leaves the array.\<close>

lemma ideal_cov_small: "n_C < 12 \<Longrightarrow> ideal_cov n_C = Inl IndexError"
  unfolding ideal_cov_def
proof (rule set_diag_loop_out_of_range)
  show "is_mat n_C n_C (set_block 8 12 0.8 (mat_map (\<lambda>e. e * 0.6) (eye n_C)))"
    by (intro is_mat_set_block is_mat_mat_map is_mat_eye)
  assume "n_C < 12"
  then have "11 \<in> set [8..<12] \<and> n_C \<le> 11" by (simp only: set_upt) simp
  then show "\<exists>c\<in>set [8..<12]. n_C \<le> c" by blast
qed

lemma symmetricI:
  assumes "is_mat n n A" "\<And>i j. i < n \<Longrightarrow> j < n \<Longrightarrow> A ! i ! j = A ! j ! i"
  shows "symmetric A"
  using assms by (simp add: symmetric_def square_def is_mat_def)

lemma rank_one_nonneg:
  fixes c u :: "nat \<Rightarrow> real"
  assumes "0 \<le> b"
  shows "0 \<le> (\<Sum>i<n. \<Sum>j<n. c i * (b * u i * u j) * c j)"
proof -
  have "(\<Sum>i<n. \<Sum>j<n. c i * (b * u i * u j) * c j)
          = (\<Sum>i<n. \<Sum>j<n. b * ((u i * c i) * (u j * c j)))"
    by (intro sum.cong refl) simp
  also have "\<dots> = b * (\<Sum>i<n. \<Sum>j<n. (u i * c i) * (u j * c j))"
    by (simp only: sum_distrib_left)
  also have "(\<Sum>i<n. \<Sum>j<n. (u i * c i) * (u j * c j)) = (\<Sum>i<n. u i * c i) * (\<Sum>j<n. u j * c j)"
    by (rule sum_product [symmetric])
  finally have "(\<Sum>i<n. \<Sum>j<n. c i * (b * u i * u j) * c j) = b * (\<Sum>i<n. u i * c i)\<^sup>2"
    by (simp only: power2_eq_square)
  then show ?thesis using assms by simp
qed

lemma ideal_cov_valid:
  assumes "12 \<le> n_C"
  shows "\<exists>U. ideal_cov n_C = Inr U \<and> is_mat n_C n_C U \<and> symmetric U \<and> pos_def U"
proof -
  from ideal_cov_spec [OF assms] obtain U where
    U: "ideal_cov n_C = Inr U" "is_mat n_C n_C U"
    and ent: "\<And>i j. i < n_C \<Longrightarrow> j < n_C \<Longrightarrow> U ! i ! j =
              (if 8 \<le> i \<and> i < 12 \<and> 8 \<le> j \<and> j < 12 then (if i = j then 1 else 0.8)
               else if i = j then 0.6 else 0)"
    by blast
  define u :: "nat \<Rightarrow> real" where "u i = (if 8 \<le> i \<and> i < 12 then 1 else 0)" for i
  define w :: "nat \<Rightarrow> real" where "w i = (if 8 \<le> i \<and> i < 12 then 0.2 else 0.6)" for i
  have sym: "symmetric U"
    using U(2) by (rule symmetricI) (auto simp: ent)
  have lenU: "length U = n_C" using U(2) by (simp add: is_mat_def)
  have pd: "pos_def U"
  proof (rule pos_def_diag_plus [where g = "\<lambda>i j. 0.8 * u i * u j" and w = w, OF lenU])
    show "U ! i ! j = 0.8 * u i * u j + (if i = j then w i else 0)" if "i < n_C" "j < n_C" for i j
      using that by (simp add: ent u_def w_def)
    show "0 < w i" for i by (simp add: w_def)
    show "0 \<le> (\<Sum>i<n_C. \<Sum>j<n_C. c i * (0.8 * u i * u j) * c j)" for c :: "nat \<Rightarrow> real"
      by (rule rank_one_nonneg) simp
  qed
  show ?thesis using U sym pd by blast
qed

text \<open>
  C10. For every \<open>n_C \<ge> 12\<close> the cell builds the ideal covariance without an error, the
  matrix is symmetric and positive definite, and \<^verbatim>\<open>np.linalg.cholesky\<close> returns its
  factor \<^verbatim>\<open>L_full\<close>.
\<close>

theorem C10_ideal_cov_pos_def:
  assumes "12 \<le> n_C"
  shows "\<exists>U L_full. ideal_cov n_C = Inr U \<and> is_mat n_C n_C U \<and> symmetric U \<and> pos_def U \<and>
           cholesky U = Inr L_full \<and> chol_factor U L_full"
proof -
  from ideal_cov_valid [OF assms] obtain U where
    U: "ideal_cov n_C = Inr U" "is_mat n_C n_C U" and sym: "symmetric U" and pd: "pos_def U"
    by blast
  from pd obtain L_full where L: "cholesky U = Inr L_full"
    using cholesky_succeeds_iff [OF sym] by blast
  have "chol_factor U L_full" using sym L by (rule cholesky_factor)
  then show ?thesis using U sym pd L by blast
qed

theorem C10_ideal_cov_pos_def_witness:
  "\<exists>U L_full. ideal_cov 16 = Inr U \<and> is_mat 16 16 U \<and> symmetric U \<and> pos_def U \<and>
     cholesky U = Inr L_full \<and> chol_factor U L_full"
  using C10_ideal_cov_pos_def [of 16] by simp

section \<open>The correlation matrix\<close>


lemma length_diag: "length (diag A) = length A"
  by (simp add: diag_def)

lemma diag_nth: "i < length A \<Longrightarrow> diag A ! i = A ! i ! i"
  by (simp add: diag_def)

lemma ideal_corr_nth:
  assumes "is_mat n n U" "i < n" "j < n"
  shows "ideal_corr U ! i ! j = U ! i ! j / sqrt (U ! j ! j) / sqrt (U ! i ! i)"
proof -
  let ?s = "map sqrt (diag U)"
  have len: "length U = n" using assms(1) by (simp add: is_mat_def)
  have ls: "length ?s = n" by (simp add: length_diag len)
  have R: "is_mat n n (op_row (/) U ?s)" using assms(1) ls by (rule is_mat_op_row)
  have "ideal_corr U ! i ! j = op_row (/) U ?s ! i ! j / ?s ! i"
    unfolding ideal_corr_def Let_def using R ls assms(2,3) by (rule op_col_nth)
  also have "op_row (/) U ?s ! i ! j = U ! i ! j / ?s ! j"
    using assms(1) ls assms(2,3) by (rule op_row_nth)
  finally show ?thesis using assms(2,3) len by (simp add: diag_nth length_diag)
qed

lemma sum_two_point:
  fixes f :: "nat \<Rightarrow> real"
  assumes "i < n" "j < n" "i \<noteq> j"
  shows "(\<Sum>k<n. (if k = i then a else if k = j then b else 0) * f k) = a * f i + b * f j"
proof -
  have "(\<Sum>k<n. (if k = i then a else if k = j then b else 0) * f k)
          = (\<Sum>k<n. (if k = i then a * f k else 0) + (if k = j then b * f k else 0))"
    using assms(3) by (intro sum.cong refl) auto
  also have "\<dots> = a * f i + b * f j"
    using assms(1,2) by (simp add: sum.distrib sum.delta)
  finally show ?thesis .
qed

text \<open>A positive semi-definite symmetric matrix satisfies the Cauchy-Schwarz bound.\<close>

lemma pos_semidef_minor:
  assumes psd: "pos_semidef U" and sym: "symmetric U"
    and i: "i < length U" and j: "j < length U" and ij: "i \<noteq> j"
  shows "0 \<le> a\<^sup>2 * U ! i ! i + 2 * a * b * U ! i ! j + b\<^sup>2 * U ! j ! j"
proof -
  let ?n = "length U"
  let ?e = "\<lambda>k. if k = i then a else if k = j then b else (0::real)"
  let ?c = "map ?e [0..<?n]"
  have c: "?c ! k = ?e k" if "k < ?n" for k using that by simp
  have "quad_form U ?c = (\<Sum>k<?n. \<Sum>l<?n. ?e k * U ! k ! l * ?e l)"
    unfolding quad_form_def by (intro sum.cong refl) (simp only: c lessThan_iff)
  also have "\<dots> = (\<Sum>k<?n. ?e k * (\<Sum>l<?n. ?e l * U ! k ! l))"
    by (simp add: sum_distrib_left mult.commute mult.left_commute)
  also have "\<dots> = (\<Sum>k<?n. ?e k * (a * U ! k ! i + b * U ! k ! j))"
    by (simp only: sum_two_point [OF i j ij])
  also have "\<dots> = a * (a * U ! i ! i + b * U ! i ! j) + b * (a * U ! j ! i + b * U ! j ! j)"
    by (rule sum_two_point [OF i j ij])
  also have "U ! j ! i = U ! i ! j" using sym i j by (simp add: symmetric_nth)
  finally have "quad_form U ?c = a\<^sup>2 * U ! i ! i + 2 * a * b * U ! i ! j + b\<^sup>2 * U ! j ! j"
    by (simp add: power2_eq_square algebra_simps)
  moreover have "0 \<le> quad_form U ?c"
    using psd unfolding pos_semidef_def by simp
  ultimately show ?thesis by simp
qed

lemma pos_semidef_cauchy:
  assumes psd: "pos_semidef U" and sym: "symmetric U"
    and i: "i < length U" and j: "j < length U" and ij: "i \<noteq> j"
    and pj: "0 < U ! j ! j"
  shows "(U ! i ! j)\<^sup>2 \<le> U ! i ! i * U ! j ! j"
proof -
  let ?x = "U ! i ! j" and ?p = "U ! i ! i" and ?q = "U ! j ! j"
  have "0 \<le> ?q\<^sup>2 * ?p + 2 * ?q * (- ?x) * ?x + (- ?x)\<^sup>2 * ?q"
    by (rule pos_semidef_minor [OF psd sym i j ij])
  then have "0 \<le> ?q * (?p * ?q - ?x\<^sup>2)"
    by (simp add: power2_eq_square algebra_simps)
  then have "0 \<le> ?p * ?q - ?x\<^sup>2"
    using pj by (simp add: zero_le_mult_iff)
  then show ?thesis by simp
qed


lemma pos_def_imp_semidef:
  assumes "pos_def U"
  shows "pos_semidef U"
  unfolding pos_semidef_def
proof (intro allI impI)
  fix c :: vec assume len: "length c = length U"
  show "0 \<le> quad_form U c"
  proof (cases "\<exists>i<length U. c ! i \<noteq> 0")
    case True
    then show ?thesis using assms len unfolding pos_def_def by (simp add: less_imp_le)
  next
    case False
    then have "quad_form U c = 0"
      unfolding quad_form_def by (intro sum.neutral ballI) simp
    then show ?thesis by simp
  qed
qed

lemma pos_def_diag_pos:
  assumes "pos_def U" "i < length U"
  shows "0 < U ! i ! i"
proof -
  let ?n = "length U"
  let ?e = "\<lambda>k. if k = i then 1 else (0::real)"
  let ?c = "map ?e [0..<?n]"
  have c: "?c ! k = ?e k" if "k < ?n" for k using that by simp
  have "quad_form U ?c = (\<Sum>k<?n. \<Sum>l<?n. ?e k * U ! k ! l * ?e l)"
    unfolding quad_form_def by (intro sum.cong refl) (simp only: c lessThan_iff)
  also have "\<dots> = (\<Sum>k<?n. \<Sum>l<?n. if l = i then ?e k * U ! k ! l else 0)"
    by (intro sum.cong refl) simp
  also have "\<dots> = (\<Sum>k<?n. ?e k * U ! k ! i)"
    using assms(2) by (simp only: sum.delta finite_lessThan lessThan_iff if_True)
  also have "\<dots> = (\<Sum>k<?n. if k = i then U ! k ! i else 0)"
    by (intro sum.cong refl) simp
  also have "\<dots> = U ! i ! i"
    using assms(2) by (simp only: sum.delta finite_lessThan lessThan_iff if_True)
  finally have "quad_form U ?c = U ! i ! i" .
  moreover have "0 < quad_form U ?c"
  proof -
    have "\<exists>k<?n. ?c ! k \<noteq> 0" using assms(2) by (intro exI [of _ i]) simp
    moreover have "length ?c = ?n" by simp
    ultimately show ?thesis using assms(1) unfolding pos_def_def by blast
  qed
  ultimately show ?thesis by simp
qed

text \<open>
  C6. Over the exact reals: for a symmetric positive semi-definite \<open>U\<close> with a strictly
  positive diagonal, the correlation matrix \<open>U / std_diag / std_diag[:, None]\<close> has a
  diagonal of ones and every entry in \<open>[-1, 1]\<close>. The float64 program reaches both only
  up to rounding: the counterexample is in the last section.
\<close>

theorem C6_correlation_bounds:
  assumes sym: "symmetric U" and psd: "pos_semidef U"
    and dpos: "\<forall>i<length U. 0 < U ! i ! i"
  shows "(\<forall>i<length U. ideal_corr U ! i ! i = 1) \<and>
         (\<forall>i<length U. \<forall>j<length U. - 1 \<le> ideal_corr U ! i ! j \<and> ideal_corr U ! i ! j \<le> 1)"
proof -
  let ?n = "length U"
  have M: "is_mat ?n ?n U"
    using sym by (simp add: symmetric_def square_def is_mat_def)
  have diag1: "ideal_corr U ! i ! i = 1" if "i < ?n" for i
  proof -
    have "0 < U ! i ! i" using dpos that by blast
    then show ?thesis by (simp add: ideal_corr_nth [OF M that that])
  qed
  have bound: "\<bar>ideal_corr U ! i ! j\<bar> \<le> 1" if i: "i < ?n" and j: "j < ?n" for i j
  proof (cases "i = j")
    case True
    then show ?thesis using diag1 [OF i] by simp
  next
    case False
    let ?x = "U ! i ! j" and ?p = "U ! i ! i" and ?q = "U ! j ! j"
    have p: "0 < ?p" and q: "0 < ?q" using dpos i j by simp_all
    have "?x\<^sup>2 \<le> ?p * ?q"
      using psd sym i j False q by (rule pos_semidef_cauchy)
    then have "sqrt (?x\<^sup>2) \<le> sqrt (?p * ?q)" by (simp only: real_sqrt_le_iff)
    then have le: "\<bar>?x\<bar> \<le> sqrt ?q * sqrt ?p"
      by (simp add: real_sqrt_mult mult.commute)
    have sp: "0 < sqrt ?q * sqrt ?p" using p q by simp
    have "\<bar>ideal_corr U ! i ! j\<bar> = \<bar>?x\<bar> / (sqrt ?q * sqrt ?p)"
      using p q by (simp add: ideal_corr_nth [OF M i j] abs_mult)
    also have "\<dots> \<le> 1" using le sp by (simp add: divide_le_eq_1_pos)
    finally show ?thesis .
  qed
  show ?thesis
    using diag1 bound by (simp add: abs_le_iff minus_le_iff)
qed


theorem C6_correlation_bounds_witness:
  "\<exists>U. ideal_cov 16 = Inr U \<and>
     (\<forall>i<length U. ideal_corr U ! i ! i = 1) \<and>
     (\<forall>i<length U. \<forall>j<length U. - 1 \<le> ideal_corr U ! i ! j \<and> ideal_corr U ! i ! j \<le> 1)"
proof -
  from ideal_cov_valid [of 16] obtain U where
    U: "ideal_cov 16 = Inr U" and sym: "symmetric U" and pd: "pos_def U"
    by auto
  have psd: "pos_semidef U" using pd by (rule pos_def_imp_semidef)
  have dpos: "\<forall>i<length U. 0 < U ! i ! i" using pd by (simp add: pos_def_diag_pos)
  show ?thesis using C6_correlation_bounds [OF sym psd dpos] U by blast
qed

section \<open>Least squares without noise\<close>


lemma ncols_is_mat: "is_mat n m A \<Longrightarrow> 0 < n \<Longrightarrow> ncols A = m"
  by (cases A) (simp_all add: ncols_def is_mat_def)

lemma length_column: "length (column A k) = length A"
  by (simp add: column_def)

lemma column_nth: "i < length A \<Longrightarrow> column A k ! i = A ! i ! k"
  by (simp add: column_def)

lemma dot_diff:
  assumes "length b' = length r" "length b = length r"
  shows "dot r (map2 (-) b' b) = dot r b' - dot r b"
proof -
  have "dot r (map2 (-) b' b) = (\<Sum>k<length r. r ! k * b' ! k - r ! k * b ! k)"
    unfolding dot_def using assms by (intro sum.cong refl) (simp add: algebra_simps)
  then show ?thesis by (simp add: dot_def sum_subtractf)
qed

lemma residual2_nonneg: "0 \<le> residual2 X b y"
  unfolding residual2_def by (rule sum_nonneg) simp

lemma residual2_exact: "residual2 X b (mat_vec X b) = 0"
  unfolding residual2_def by (rule sum.neutral) (simp add: mat_vec_nth)

lemma residual2_zero:
  assumes "residual2 X b y = 0" "t < length X"
  shows "dot (X ! t) b = y ! t"
proof -
  have "(\<Sum>t<length X. (dot (X ! t) b - y ! t)\<^sup>2) = 0"
    using assms(1) by (simp add: residual2_def)
  then have "\<forall>t\<in>{..<length X}. (dot (X ! t) b - y ! t)\<^sup>2 = 0"
    by (subst (asm) sum_nonneg_eq_0_iff) simp_all
  then show ?thesis using assms(2) by simp
qed

lemma least_squares_exact:
  assumes X: "is_mat T n X" and T: "0 < T" and b: "length b = n" and rank: "full_column_rank X"
  shows "least_squares X (mat_vec X b) b' \<longleftrightarrow> b' = b"
proof
  assume "b' = b"
  then show "least_squares X (mat_vec X b) b'"
    using b ncols_is_mat [OF X T]
    by (simp add: least_squares_def residual2_exact residual2_nonneg)
next
  assume ls: "least_squares X (mat_vec X b) b'"
  have nc: "ncols X = n" using X T by (rule ncols_is_mat)
  have lenX: "length X = T" using X by (simp add: is_mat_def)
  have b': "length b' = n" using ls nc by (simp add: least_squares_def)
  have "residual2 X b' (mat_vec X b) \<le> residual2 X b (mat_vec X b)"
    using ls b nc by (simp add: least_squares_def)
  then have zero: "residual2 X b' (mat_vec X b) = 0"
    using residual2_nonneg [of X b' "mat_vec X b"] by (simp add: residual2_exact)
  let ?d = "map2 (-) b' b"
  have "mat_vec X ?d = replicate (length X) 0"
  proof (rule nth_equalityI)
    show "length (mat_vec X ?d) = length (replicate (length X) (0::real))"
      by (simp add: length_mat_vec)
  next
    fix t assume "t < length (mat_vec X ?d)"
    then have t: "t < length X" by (simp add: length_mat_vec)
    then have row: "length (X ! t) = n" using is_mat_row [OF X] lenX by simp
    have "dot (X ! t) b' = dot (X ! t) b"
      using residual2_zero [OF zero t] t by (simp add: mat_vec_nth)
    then show "mat_vec X ?d ! t = replicate (length X) 0 ! t"
      using t row b b' by (simp add: mat_vec_nth dot_diff)
  qed
  moreover have "length ?d = ncols X" using b b' nc by simp
  ultimately have d0: "?d = replicate (ncols X) 0"
    using rank unfolding full_column_rank_def by blast
  show "b' = b"
  proof (rule nth_equalityI)
    show "length b' = length b" using b b' by simp
  next
    fix k assume "k < length b'"
    then have k: "k < n" using b' by simp
    have "?d ! k = 0" unfolding d0 using k nc by simp
    then show "b' ! k = b ! k" using k b b' by simp
  qed
qed

lemma column_mat_mul:
  assumes X: "is_mat T n X" and B: "is_mat n m B" and k: "k < m" and n: "0 < n"
  shows "column (mat_mul X B) k = mat_vec X (column B k)"
proof (rule nth_equalityI)
  show "length (column (mat_mul X B) k) = length (mat_vec X (column B k))"
    by (simp add: length_column length_mat_vec mat_mul_def)
next
  fix t assume "t < length (column (mat_mul X B) k)"
  then have t: "t < length X" by (simp add: length_column mat_mul_def)
  have lenB: "length B = n" using B by (simp add: is_mat_def)
  have row: "length (X ! t) = n" using is_mat_row [OF X] t X by (simp add: is_mat_def)
  have nc: "ncols B = m" using B n by (rule ncols_is_mat)
  have "column (mat_mul X B) k ! t = (\<Sum>j<n. X ! t ! j * B ! j ! k)"
    using t k by (simp add: column_def mat_mul_def nc lenB)
  also have "\<dots> = dot (X ! t) (column B k)"
    unfolding dot_def row by (intro sum.cong refl) (simp add: column_nth lenB)
  finally show "column (mat_mul X B) k ! t = mat_vec X (column B k) ! t"
    using t by (simp add: mat_vec_nth)
qed

lemma is_mat_mat_mul:
  assumes "is_mat T n X" "is_mat n m B" "0 < n"
  shows "is_mat T m (mat_mul X B)"
  using assms ncols_is_mat [OF assms(2,3)]
  by (intro is_matI) (simp_all add: mat_mul_def is_mat_def)

lemma mat_eq_columns:
  assumes "is_mat n m A" "is_mat n m B" "\<And>k. k < m \<Longrightarrow> column A k = column B k"
  shows "A = B"
proof (rule nth_equalityI)
  show "length A = length B" using assms(1,2) by (simp add: is_mat_def)
next
  fix i assume "i < length A"
  then have i: "i < n" using assms(1) by (simp add: is_mat_def)
  show "A ! i = B ! i"
  proof (rule nth_equalityI)
    show "length (A ! i) = length (B ! i)"
      using is_mat_row [OF assms(1) i] is_mat_row [OF assms(2) i] by simp
  next
    fix k assume "k < length (A ! i)"
    then have k: "k < m" using is_mat_row [OF assms(1) i] by simp
    have "column A k ! i = column B k ! i" using assms(3) [OF k] by simp
    then show "A ! i ! k = B ! i ! k"
      using i assms(1,2) by (simp add: column_nth is_mat_def)
  qed
qed


lemma lstsq_solution_unique:
  assumes ncX: "ncols X = n" and ncY: "ncols Y = m" and B: "is_mat n m B"
    and col: "\<And>k b'. k < m \<Longrightarrow> least_squares X (column Y k) b' \<longleftrightarrow> b' = column B k"
  shows "lstsq_solution X Y B' \<longleftrightarrow> B' = B"
proof
  assume "B' = B"
  then show "lstsq_solution X Y B'"
    using B by (simp add: lstsq_solution_def ncX ncY col)
next
  assume sol: "lstsq_solution X Y B'"
  then have B': "is_mat n m B'" by (simp add: lstsq_solution_def ncX ncY)
  have "column B' k = column B k" if "k < m" for k
  proof -
    have "least_squares X (column Y k) (column B' k)"
      using sol that unfolding lstsq_solution_def ncY by blast
    then show ?thesis by (simp only: col [OF that])
  qed
  with B' B show "B' = B" by (rule mat_eq_columns)
qed

text \<open>
  C8. For a design matrix \<open>X\<close> with linearly independent columns and any \<open>B\<close>, the
  least-squares solutions of \<open>min \<parallel>X B' - Y\<parallel>\<close> for the noise-free \<open>Y = X B\<close> are exactly
  \<open>B\<close>: what \<^verbatim>\<open>np.linalg.lstsq(X, Y)[0]\<close> returns is \<open>B\<close>.
\<close>

theorem C8_lstsq_roundtrip:
  assumes X: "is_mat T n X" and T: "0 < T" and n: "0 < n"
    and B: "is_mat n m B" and rank: "full_column_rank X"
  shows "lstsq_solution X (mat_mul X B) B' \<longleftrightarrow> B' = B"
proof -
  have ncX: "ncols X = n" using X T by (rule ncols_is_mat)
  have Y: "is_mat T m (mat_mul X B)" using X B n by (rule is_mat_mat_mul)
  have ncY: "ncols (mat_mul X B) = m" using Y T by (rule ncols_is_mat)
  have lenB: "length B = n" using B by (simp add: is_mat_def)
  have col: "least_squares X (column (mat_mul X B) k) b' \<longleftrightarrow> b' = column B k"
    if "k < m" for k b'
    unfolding column_mat_mul [OF X B that n]
    using X T _ rank by (rule least_squares_exact) (simp add: length_column lenB)
  show ?thesis
    using ncX ncY B col by (rule lstsq_solution_unique)
qed

theorem C8_lstsq_roundtrip_witness:
  "\<forall>B'. lstsq_solution [[1, 1], [1, 2], [1, 3]] (mat_mul [[1, 1], [1, 2], [1, 3]] [[5], [7]]) B'
          \<longleftrightarrow> B' = [[5], [7]]"
proof -
  have rank: "full_column_rank [[1, 1], [1, 2], [1, 3]]"
    unfolding full_column_rank_def
  proof (intro allI impI)
    fix c :: vec
    assume len: "length c = ncols [[1, 1], [1, 2], [1, 3]]"
      and zero: "mat_vec [[1, 1], [1, 2], [1, 3]] c = replicate (length [[1, 1], [1, 2], [1, 3::real]]) 0"
    from len obtain a b where c: "c = [a, b]"
      by (cases c; cases "tl c") (auto simp: ncols_def)
    have "a + b = 0" "a + 2 * b = 0"
      using zero unfolding c by (simp_all add: mat_vec_def dot_def numeral_2_eq_2)
    then have "a = 0" "b = 0" by simp_all
    then show "c = replicate (ncols [[1, 1], [1, 2], [1, 3]]) 0"
      unfolding c by (simp add: ncols_def numeral_2_eq_2)
  qed
  have X: "is_mat 3 2 [[1, 1], [1, 2], [1, 3::real]]" by (simp add: is_mat_def)
  have B: "is_mat 2 1 [[5], [7::real]]" by (simp add: is_mat_def)
  show ?thesis
    using C8_lstsq_roundtrip [OF X _ _ B rank] by simp
qed

lemma is_mat_insert_ones: "is_mat T n design \<Longrightarrow> is_mat T (Suc n) (insert_ones design)"
  by (simp add: insert_ones_def is_mat_def list_all_length)

lemma mat_mul_insert_ones:
  assumes D: "is_mat T n design" and B: "is_mat n m B" and n: "0 < n"
  shows "mat_mul (insert_ones design) (replicate m 0 # B) = mat_mul design B"
proof -
  have lenB: "length B = n" using B by (simp add: is_mat_def)
  have nc: "ncols B = m" using B n by (rule ncols_is_mat)
  have nc': "ncols (replicate m 0 # B) = m" by (simp add: ncols_def)
  have "(\<Sum>k<Suc n. (1 # row) ! k * (replicate m 0 # B) ! k ! j) = (\<Sum>k<n. row ! k * B ! k ! j)"
    if "j < m" for row :: vec and j
    unfolding sum.lessThan_Suc_shift using that by simp
  then show ?thesis
    unfolding mat_mul_def insert_ones_def nc nc' by (simp add: lenB)
qed

text \<open>
  The notebook's own call: the regressors are the design with a column of ones in
  front. On noise-free data \<^verbatim>\<open>betas_point[1:, :]\<close> is the beta matrix and the
  intercept row is zero.
\<close>

lemma lstsq_with_intercept:
  assumes D: "is_mat T n design" and T: "0 < T" and n: "0 < n"
    and B: "is_mat n m B" and rank: "full_column_rank (insert_ones design)"
  shows "lstsq_solution (insert_ones design) (mat_mul design B) B' \<longleftrightarrow> B' = replicate m 0 # B"
proof -
  let ?X = "insert_ones design" and ?B = "replicate m 0 # B"
  have X: "is_mat T (Suc n) ?X" using D by (rule is_mat_insert_ones)
  have B0: "is_mat (Suc n) m ?B" using B by (simp add: is_mat_def)
  have Y: "mat_mul design B = mat_mul ?X ?B"
    using D B n by (rule mat_mul_insert_ones [symmetric])
  have ncX: "ncols ?X = Suc n" using X T by (rule ncols_is_mat)
  have "is_mat T m (mat_mul ?X ?B)" using X B0 by (rule is_mat_mat_mul) simp
  then have ncY: "ncols (mat_mul ?X ?B) = m" using T by (rule ncols_is_mat)
  have lenB: "length ?B = Suc n" using B0 by (simp add: is_mat_def)
  have col: "least_squares ?X (column (mat_mul ?X ?B) k) b' \<longleftrightarrow> b' = column ?B k"
    if "k < m" for k b'
    unfolding column_mat_mul [OF X B0 that zero_less_Suc]
    using X T _ rank by (rule least_squares_exact) (simp only: length_column lenB)
  show ?thesis
    unfolding Y using ncX ncY B0 col by (rule lstsq_solution_unique)
qed

section \<open>The squared-exponential kernel is positive semi-definite\<close>


text \<open>Powers of a Gram kernel are positive semi-definite (Schur products with a Gram matrix).\<close>

lemma ones_psd:
  fixes c :: "nat \<Rightarrow> real"
  shows "0 \<le> (\<Sum>i<n. \<Sum>j<n. c i * c j)"
proof -
  have "(\<Sum>i<n. \<Sum>j<n. c i * c j) = (\<Sum>i<n. c i) * (\<Sum>j<n. c j)"
    by (rule sum_product [symmetric])
  then show ?thesis by simp
qed

lemma gram_power_psd:
  fixes c :: "nat \<Rightarrow> real" and P :: "nat \<Rightarrow> nat \<Rightarrow> real"
  shows "0 \<le> (\<Sum>i<n. \<Sum>j<n. c i * (\<Sum>k<d. P i k * P j k) ^ m * c j)"
proof (induction m arbitrary: c)
  case 0
  show ?case using ones_psd [where c = c and n = n] by simp
next
  case (Suc m)
  let ?x = "\<lambda>i j. \<Sum>k<d. P i k * P j k"
  have "(\<Sum>i<n. \<Sum>j<n. c i * ?x i j ^ Suc m * c j)
          = (\<Sum>i<n. \<Sum>j<n. \<Sum>k<d. (c i * P i k) * ?x i j ^ m * (c j * P j k))"
    by (intro sum.cong refl) (simp add: sum_distrib_left sum_distrib_right algebra_simps)
  also have "\<dots> = (\<Sum>i<n. \<Sum>k<d. \<Sum>j<n. (c i * P i k) * ?x i j ^ m * (c j * P j k))"
    by (rule sum.cong [OF refl]) (rule sum.swap)
  also have "\<dots> = (\<Sum>k<d. \<Sum>i<n. \<Sum>j<n. (c i * P i k) * ?x i j ^ m * (c j * P j k))"
    by (rule sum.swap)
  also have "0 \<le> \<dots>"
    by (rule sum_nonneg) (rule Suc.IH)
  finally show ?case .
qed

lemma exp_kernel_psd:
  fixes c :: "nat \<Rightarrow> real" and P :: "nat \<Rightarrow> nat \<Rightarrow> real"
  shows "0 \<le> (\<Sum>i<n. \<Sum>j<n. c i * exp (\<Sum>k<d. P i k * P j k) * c j)"
proof -
  let ?x = "\<lambda>i j. \<Sum>k<d. P i k * P j k"
  let ?t = "\<lambda>m i j. c i * (?x i j ^ m / fact m) * c j"
  have tm: "(\<lambda>m. ?t m i j) sums (c i * exp (?x i j) * c j)" for i j
  proof -
    have "(\<lambda>m. ?x i j ^ m / fact m) sums exp (?x i j)"
      using exp_converges [of "?x i j"] by (simp add: divide_inverse mult.commute)
    then show ?thesis by (intro sums_mult sums_mult2)
  qed
  have series: "(\<lambda>m. \<Sum>i<n. \<Sum>j<n. ?t m i j) sums (\<Sum>i<n. \<Sum>j<n. c i * exp (?x i j) * c j)"
    by (intro sums_sum tm)
  have nonneg: "0 \<le> (\<Sum>i<n. \<Sum>j<n. ?t m i j)" for m
  proof -
    have "(\<Sum>i<n. \<Sum>j<n. ?t m i j) = (\<Sum>i<n. \<Sum>j<n. c i * ?x i j ^ m * c j) / fact m"
      by (simp add: sum_divide_distrib)
    also have "0 \<le> \<dots>" using gram_power_psd [where c = c and P = P and n = n and d = d and m = m] by simp
    finally show ?thesis .
  qed
  show ?thesis
    by (rule sums_le [OF nonneg sums_zero series])
qed

lemma gauss_kernel_psd:
  fixes c :: "nat \<Rightarrow> real" and P :: "nat \<Rightarrow> nat \<Rightarrow> real"
  shows "0 \<le> (\<Sum>i<n. \<Sum>j<n. c i * exp (- (\<Sum>k<d. (P i k - P j k)\<^sup>2) / 2) * c j)"
proof -
  let ?N = "\<lambda>i. \<Sum>k<d. (P i k)\<^sup>2"
  let ?x = "\<lambda>i j. \<Sum>k<d. P i k * P j k"
  have expand: "(\<Sum>k<d. (P i k - P j k)\<^sup>2) = ?N i + ?N j - 2 * ?x i j" for i j
    by (simp add: power2_diff sum.distrib sum_subtractf sum_distrib_left algebra_simps)
  have "exp (- (\<Sum>k<d. (P i k - P j k)\<^sup>2) / 2) = exp (- ?N i / 2) * exp (?x i j) * exp (- ?N j / 2)"
    for i j
    unfolding expand exp_add [symmetric] by (simp add: field_simps)
  then have "(\<Sum>i<n. \<Sum>j<n. c i * exp (- (\<Sum>k<d. (P i k - P j k)\<^sup>2) / 2) * c j)
          = (\<Sum>i<n. \<Sum>j<n. (c i * exp (- ?N i / 2)) * exp (?x i j) * (c j * exp (- ?N j / 2)))"
    by (simp add: algebra_simps)
  also have "0 \<le> \<dots>" by (rule exp_kernel_psd)
  finally show ?thesis .
qed

section \<open>The two covariance kernels are positive definite\<close>


lemma squareform_pdist_sum:
  assumes X: "is_mat n d X" and i: "i < n" and j: "j < n"
  shows "squareform_pdist X ! i ! j = (\<Sum>k<d. (X ! i ! k - X ! j ! k)\<^sup>2)"
proof -
  have len: "length X = n" using X by (simp add: is_mat_def)
  have ri: "length (X ! i) = d" and rj: "length (X ! j) = d"
    using is_mat_row [OF X] i j by simp_all
  have "sqeuclidean (X ! j) (X ! i) = (\<Sum>k<d. (X ! i ! k - X ! j ! k)\<^sup>2)"
    unfolding sqeuclidean_def rj by (intro sum.cong refl) (rule power2_commute)
  moreover have "sqeuclidean (X ! i) (X ! j) = (\<Sum>k<d. (X ! i ! k - X ! j ! k)\<^sup>2)"
    unfolding sqeuclidean_def ri ..
  ultimately show ?thesis
    using i j len by (simp add: squareform_pdist_nth)
qed

lemma scaled_dist:
  fixes w :: real
  assumes "w \<noteq> 0"
  shows "(\<Sum>k<d. (x k - y k)\<^sup>2) / w\<^sup>2 = (\<Sum>k<d. (x k / w - y k / w)\<^sup>2)"
proof -
  have "(x k / w - y k / w)\<^sup>2 = (x k - y k)\<^sup>2 / w\<^sup>2" for k
    by (simp add: diff_divide_distrib [symmetric] power_divide)
  then show ?thesis by (simp add: sum_divide_distrib)
qed

text \<open>The spatial noise covariance is symmetric and positive definite.\<close>

lemma K_noise_symmetric:
  assumes X: "is_mat n d X" and s: "length sigma = n"
  shows "symmetric (K_noise sigma (squareform_pdist X) w)"
proof (rule symmetricI)
  have len: "length X = n" using X by (simp add: is_mat_def)
  have D: "is_mat n n (squareform_pdist X)"
    using is_mat_squareform_pdist [of X] len by simp
  show "is_mat n n (K_noise sigma (squareform_pdist X) w)"
    using D s by (rule is_mat_K_noise)
  fix i j assume ij: "i < n" "j < n"
  have "squareform_pdist X ! i ! j = squareform_pdist X ! j ! i"
    unfolding squareform_pdist_sum [OF X ij] squareform_pdist_sum [OF X ij(2,1)]
    by (intro sum.cong refl) (rule power2_commute)
  then show "K_noise sigma (squareform_pdist X) w ! i ! j = K_noise sigma (squareform_pdist X) w ! j ! i"
    unfolding K_noise_nth [OF D s ij] K_noise_nth [OF D s ij(2,1)] by auto
qed

lemma K_noise_pos_def:
  assumes X: "is_mat n d X" and s: "length sigma = n"
    and nz: "\<And>i. i < n \<Longrightarrow> sigma ! i \<noteq> 0" and w: "w \<noteq> 0"
  shows "pos_def (K_noise sigma (squareform_pdist X) w)"
proof -
  let ?K = "K_noise sigma (squareform_pdist X) w"
  let ?P = "\<lambda>i k. X ! i ! k / w"
  let ?E = "\<lambda>i j. exp (- (\<Sum>k<d. (?P i k - ?P j k)\<^sup>2) / 2)"
  have len: "length X = n" using X by (simp add: is_mat_def)
  have D: "is_mat n n (squareform_pdist X)"
    using is_mat_squareform_pdist [of X] len by simp
  have lenK: "length ?K = n" using is_mat_K_noise [OF D s] by (simp add: is_mat_def)
  show ?thesis
  proof (rule pos_def_diag_plus
      [where g = "\<lambda>i j. sigma ! i * ?E i j * sigma ! j" and w = "\<lambda>i. 0.1 * (sigma ! i)\<^sup>2", OF lenK])
    fix i j assume ij: "i < n" "j < n"
    have "- squareform_pdist X ! i ! j / w\<^sup>2 / 2 = - (\<Sum>k<d. (?P i k - ?P j k)\<^sup>2) / 2"
      unfolding squareform_pdist_sum [OF X ij] scaled_dist [OF w, symmetric] by simp
    then show "?K ! i ! j = sigma ! i * ?E i j * sigma ! j
                  + (if i = j then 0.1 * (sigma ! i)\<^sup>2 else 0)"
      unfolding K_noise_nth [OF D s ij] by (simp add: algebra_simps power2_eq_square)
  next
    fix i assume "i < n"
    then show "0 < 0.1 * (sigma ! i)\<^sup>2" using nz by simp
  next
    fix c :: "nat \<Rightarrow> real"
    have "(\<Sum>i<n. \<Sum>j<n. c i * (sigma ! i * ?E i j * sigma ! j) * c j)
            = (\<Sum>i<n. \<Sum>j<n. (c i * sigma ! i) * ?E i j * (c j * sigma ! j))"
      by (intro sum.cong refl) simp
    also have "0 \<le> \<dots>" by (rule gauss_kernel_psd)
    finally show "0 \<le> (\<Sum>i<n. \<Sum>j<n. c i * (sigma ! i * ?E i j * sigma ! j) * c j)" .
  qed
qed


text \<open>The kernel of the SNR Gaussian process.\<close>

lemma ncols_replicate: "ncols (replicate n v) = (if n = 0 then 0 else length v)"
  by (cases n) (simp_all add: ncols_def)

lemma is_mat_tile_rows: "is_mat n (length v) (tile_rows v n)"
  by (simp add: tile_rows_def is_mat_def list_all_length)

lemma is_mat_transpose_tile:
  "is_mat (length v) (length v) (transpose_m (tile_rows v (length v)))"
  by (rule is_matI) (auto simp: transpose_m_def tile_rows_def ncols_replicate)

lemma transpose_tile_nth:
  "i < length v \<Longrightarrow> j < length v \<Longrightarrow> transpose_m (tile_rows v (length v)) ! i ! j = v ! i"
  by (auto simp: transpose_m_def tile_rows_def ncols_replicate)

lemma is_mat_inten_diff2: "is_mat (length inten) (length inten) (inten_diff2 inten)"
  unfolding inten_diff2_def Let_def
  by (intro is_mat_mat_map is_mat_mat_map2 is_mat_tile_rows is_mat_transpose_tile)

lemma inten_diff2_nth:
  assumes "i < length inten" "j < length inten"
  shows "inten_diff2 inten ! i ! j = (inten ! j - inten ! i)\<^sup>2"
proof -
  let ?n = "length inten"
  let ?T = "tile_rows inten ?n"
  have T: "is_mat ?n ?n ?T" by (rule is_mat_tile_rows)
  have TT: "is_mat ?n ?n (transpose_m ?T)" by (rule is_mat_transpose_tile)
  have "inten_diff2 inten ! i ! j = (mat_map2 (-) ?T (transpose_m ?T) ! i ! j)\<^sup>2"
    unfolding inten_diff2_def Let_def
    using is_mat_mat_map2 [OF T TT] assms by (rule mat_map_nth)
  also have "mat_map2 (-) ?T (transpose_m ?T) ! i ! j = ?T ! i ! j - transpose_m ?T ! i ! j"
    using T TT assms by (rule mat_map2_nth)
  also have "?T ! i ! j = inten ! j" using assms by (simp add: tile_rows_def)
  also have "transpose_m ?T ! i ! j = inten ! i" using assms by (rule transpose_tile_nth)
  finally show ?thesis .
qed

lemma is_mat_K_snr:
  assumes "is_mat n n D" "is_mat n n I"
  shows "is_mat n n (K_snr D I sw ik tau n)"
  unfolding K_snr_def
  by (intro is_mat_mat_map2 is_mat_mat_map is_mat_eye assms)

lemma K_snr_nth:
  assumes D: "is_mat n n D" and I: "is_mat n n I" and i: "i < n" and j: "j < n"
  shows "K_snr D I sw ik tau n ! i ! j =
           exp (- (D ! i ! j) / sw\<^sup>2 / 2 - I ! i ! j / ik\<^sup>2 / 2) * tau\<^sup>2
           + (if i = j then 1 else 0) * tau\<^sup>2 * 0.001"
proof -
  let ?A = "mat_map (\<lambda>d. - d / sw\<^sup>2 / 2) D"
  let ?B = "mat_map (\<lambda>d. d / ik\<^sup>2 / 2) I"
  let ?C = "mat_map2 (-) ?A ?B"
  let ?E = "mat_map exp ?C"
  let ?G = "mat_map (\<lambda>e. e * tau\<^sup>2) ?E"
  let ?J = "mat_map (\<lambda>e. e * tau\<^sup>2 * 0.001) (eye n)"
  have A: "is_mat n n ?A" using D by (rule is_mat_mat_map)
  have B: "is_mat n n ?B" using I by (rule is_mat_mat_map)
  have C: "is_mat n n ?C" using A B by (rule is_mat_mat_map2)
  have E: "is_mat n n ?E" using C by (rule is_mat_mat_map)
  have G: "is_mat n n ?G" using E by (rule is_mat_mat_map)
  have J: "is_mat n n ?J" using is_mat_eye by (rule is_mat_mat_map)
  have "K_snr D I sw ik tau n ! i ! j = ?G ! i ! j + ?J ! i ! j"
    unfolding K_snr_def using G J i j by (rule mat_map2_nth)
  also have "?G ! i ! j = ?E ! i ! j * tau\<^sup>2" using E i j by (rule mat_map_nth)
  also have "?E ! i ! j = exp (?C ! i ! j)" using C i j by (rule mat_map_nth)
  also have "?C ! i ! j = ?A ! i ! j - ?B ! i ! j" using A B i j by (rule mat_map2_nth)
  also have "?A ! i ! j = - (D ! i ! j) / sw\<^sup>2 / 2" using D i j by (rule mat_map_nth)
  also have "?B ! i ! j = I ! i ! j / ik\<^sup>2 / 2" using I i j by (rule mat_map_nth)
  also have "?J ! i ! j = eye n ! i ! j * tau\<^sup>2 * 0.001" using is_mat_eye i j by (rule mat_map_nth)
  also have "eye n ! i ! j = (if i = j then 1 else 0)" using i j by (rule eye_nth)
  finally show ?thesis .
qed

lemma K_snr_symmetric:
  assumes X: "is_mat n d X" and li: "length inten = n"
  shows "symmetric (K_snr (squareform_pdist X) (inten_diff2 inten) sw ik tau n)"
proof (rule symmetricI)
  have len: "length X = n" using X by (simp add: is_mat_def)
  have D: "is_mat n n (squareform_pdist X)"
    using is_mat_squareform_pdist [of X] len by simp
  have I: "is_mat n n (inten_diff2 inten)"
    using is_mat_inten_diff2 [of inten] li by simp
  show "is_mat n n (K_snr (squareform_pdist X) (inten_diff2 inten) sw ik tau n)"
    using D I by (rule is_mat_K_snr)
  fix i j assume ij: "i < n" "j < n"
  have "squareform_pdist X ! i ! j = squareform_pdist X ! j ! i"
    unfolding squareform_pdist_sum [OF X ij] squareform_pdist_sum [OF X ij(2,1)]
    by (intro sum.cong refl) (rule power2_commute)
  moreover have "inten_diff2 inten ! i ! j = inten_diff2 inten ! j ! i"
    using ij li by (simp add: inten_diff2_nth power2_commute)
  ultimately show "K_snr (squareform_pdist X) (inten_diff2 inten) sw ik tau n ! i ! j
                 = K_snr (squareform_pdist X) (inten_diff2 inten) sw ik tau n ! j ! i"
    unfolding K_snr_nth [OF D I ij] K_snr_nth [OF D I ij(2,1)] by auto
qed

lemma K_snr_pos_def:
  assumes X: "is_mat n d X" and li: "length inten = n"
    and sw: "sw \<noteq> 0" and ik: "ik \<noteq> 0" and tau: "tau \<noteq> 0"
  shows "pos_def (K_snr (squareform_pdist X) (inten_diff2 inten) sw ik tau n)"
proof -
  let ?K = "K_snr (squareform_pdist X) (inten_diff2 inten) sw ik tau n"
  let ?P = "\<lambda>i k. if k < d then X ! i ! k / sw else inten ! i / ik"
  let ?E = "\<lambda>i j. exp (- (\<Sum>k<Suc d. (?P i k - ?P j k)\<^sup>2) / 2)"
  have len: "length X = n" using X by (simp add: is_mat_def)
  have D: "is_mat n n (squareform_pdist X)"
    using is_mat_squareform_pdist [of X] len by simp
  have I: "is_mat n n (inten_diff2 inten)"
    using is_mat_inten_diff2 [of inten] li by simp
  have lenK: "length ?K = n" using is_mat_K_snr [OF D I] by (simp add: is_mat_def)
  show ?thesis
  proof (rule pos_def_diag_plus
      [where g = "\<lambda>i j. tau\<^sup>2 * ?E i j" and w = "\<lambda>i. 0.001 * tau\<^sup>2", OF lenK])
    fix i j assume ij: "i < n" "j < n"
    have "(\<Sum>k<Suc d. (?P i k - ?P j k)\<^sup>2)
            = (\<Sum>k<d. (X ! i ! k / sw - X ! j ! k / sw)\<^sup>2) + (inten ! i / ik - inten ! j / ik)\<^sup>2"
      by simp
    also have "(\<Sum>k<d. (X ! i ! k / sw - X ! j ! k / sw)\<^sup>2) = squareform_pdist X ! i ! j / sw\<^sup>2"
      unfolding squareform_pdist_sum [OF X ij] by (rule scaled_dist [OF sw, symmetric])
    also have "(inten ! i / ik - inten ! j / ik)\<^sup>2 = inten_diff2 inten ! i ! j / ik\<^sup>2"
      using ij li
      by (simp add: inten_diff2_nth diff_divide_distrib [symmetric] power_divide power2_commute)
    finally have "- squareform_pdist X ! i ! j / sw\<^sup>2 / 2 - inten_diff2 inten ! i ! j / ik\<^sup>2 / 2
                    = - (\<Sum>k<Suc d. (?P i k - ?P j k)\<^sup>2) / 2"
      by (simp add: field_simps)
    then show "?K ! i ! j = tau\<^sup>2 * ?E i j + (if i = j then 0.001 * tau\<^sup>2 else 0)"
      unfolding K_snr_nth [OF D I ij] by (simp add: algebra_simps)
  next
    fix i assume "i < n"
    show "0 < 0.001 * tau\<^sup>2" using tau by simp
  next
    fix c :: "nat \<Rightarrow> real"
    have "(\<Sum>i<n. \<Sum>j<n. c i * (tau\<^sup>2 * ?E i j) * c j)
            = tau\<^sup>2 * (\<Sum>i<n. \<Sum>j<n. c i * ?E i j * c j)"
      unfolding sum_distrib_left by (intro sum.cong refl) simp
    also have "0 \<le> \<dots>"
      by (intro mult_nonneg_nonneg gauss_kernel_psd) simp
    finally show "0 \<le> (\<Sum>i<n. \<Sum>j<n. c i * (tau\<^sup>2 * ?E i j) * c j)" .
  qed
qed


text \<open>
  C4. Over the exact reals: for voxel coordinates of one dimension \<open>d\<close>, strictly
  positive noise levels, positive kernel widths and positive \<open>tau\<close>, the spatial noise
  covariance \<open>K_noise\<close> and the kernel \<open>K\<close> of the SNR Gaussian process, with its jitter
  \<open>tau\<^sup>2 * 0.001\<close> on the diagonal, are symmetric and positive definite, and the
  factorisation returns a factor of each. The float64 program does not have the
  property at every strictly positive input: the counterexample is in the last section.
\<close>

theorem C4_kernels_pos_def:
  assumes "is_mat n_V d coords_flat" and "length noise_level = n_V" and "length inten = n_V"
    and "\<forall>v<n_V. 0 < noise_level ! v"
    and "0 < noise_smooth_width" and "0 < smooth_width" and "0 < inten_kernel" and "0 < tau"
  shows "symmetric (K_noise noise_level (squareform_pdist coords_flat) noise_smooth_width) \<and>
         pos_def (K_noise noise_level (squareform_pdist coords_flat) noise_smooth_width) \<and>
         (\<exists>L_noise. cholesky (K_noise noise_level (squareform_pdist coords_flat) noise_smooth_width)
                       = Inr L_noise) \<and>
         symmetric (K_snr (squareform_pdist coords_flat) (inten_diff2 inten)
                      smooth_width inten_kernel tau n_V) \<and>
         pos_def (K_snr (squareform_pdist coords_flat) (inten_diff2 inten)
                    smooth_width inten_kernel tau n_V) \<and>
         (\<exists>L. cholesky (K_snr (squareform_pdist coords_flat) (inten_diff2 inten)
                          smooth_width inten_kernel tau n_V) = Inr L)"
proof -
  let ?Kn = "K_noise noise_level (squareform_pdist coords_flat) noise_smooth_width"
  let ?K = "K_snr (squareform_pdist coords_flat) (inten_diff2 inten) smooth_width inten_kernel tau n_V"
  have s1: "symmetric ?Kn" using assms(1,2) by (rule K_noise_symmetric)
  have p1: "pos_def ?Kn"
    using assms(1,2) by (rule K_noise_pos_def) (use assms(4,5) in auto)
  have c1: "\<exists>L. cholesky ?Kn = Inr L"
    using p1 by (simp only: cholesky_succeeds_iff [OF s1])
  have s2: "symmetric ?K" using assms(1,3) by (rule K_snr_symmetric)
  have p2: "pos_def ?K"
    using assms(1,3) by (rule K_snr_pos_def) (use assms(6,7,8) in auto)
  have c2: "\<exists>L. cholesky ?K = Inr L"
    using p2 by (simp only: cholesky_succeeds_iff [OF s2])
  show ?thesis using s1 p1 c1 s2 p2 c2 by blast
qed

theorem C4_kernels_pos_def_witness:
  "symmetric (K_noise [1 / 2, 5] (squareform_pdist [[0, 0, 0], [1, 0, 0]]) 10) \<and>
   pos_def (K_noise [1 / 2, 5] (squareform_pdist [[0, 0, 0], [1, 0, 0]]) 10) \<and>
   (\<exists>L_noise. cholesky (K_noise [1 / 2, 5] (squareform_pdist [[0, 0, 0], [1, 0, 0]]) 10)
                 = Inr L_noise) \<and>
   symmetric (K_snr (squareform_pdist [[0, 0, 0], [1, 0, 0]]) (inten_diff2 [3, 7]) 3 4 (4 / 5) 2) \<and>
   pos_def (K_snr (squareform_pdist [[0, 0, 0], [1, 0, 0]]) (inten_diff2 [3, 7]) 3 4 (4 / 5) 2) \<and>
   (\<exists>L. cholesky (K_snr (squareform_pdist [[0, 0, 0], [1, 0, 0]]) (inten_diff2 [3, 7]) 3 4 (4 / 5) 2)
           = Inr L)"
  using C4_kernels_pos_def [of 2 3 "[[0, 0, 0], [1, 0, 0]]" "[1 / 2, 5]" "[3, 7]" 10 3 4 "4 / 5"]
  by (simp add: is_mat_def nth_Cons')

section \<open>The simulators\<close>




lemma simulate_noise_cholesky_ok:
  assumes "cholesky (K_noise noise_level (squareform_pdist coords_flat) w) = Inr L_noise"
  shows "simulate_noise coords_flat noise_level rho1 w n_T g =
           (case ar1_noise L_noise rho1 n_T (length noise_level) g of
              Inl e \<Rightarrow> Inl e
            | Inr (noise, g') \<Rightarrow> Inr (add_offset noise (length noise_level) g'))"
  using assms by (simp add: simulate_noise_def Let_def)



lemma add_offset_draw:
  "add_offset noise n (\<lambda>j. g (j + t * n)) = (op_row (+) noise (draw g n t), \<lambda>j. g (j + Suc t * n))"
  by (simp add: add_offset_def randn_draw)

text \<open>
  C5. Once the AR(1) loop has produced \<open>ar_noise\<close>, one more vector is drawn, the block
  of the generator's stream that follows the \<open>n_T\<close> blocks the loop has used, and entry
  \<open>v\<close> of that single vector is added to voxel \<open>v\<close> at every time point:
  \<open>final_noise[t, v] = ar_noise[t, v] + c\<^sub>v\<close>.
\<close>

theorem C5_offset_shared_over_time:
  assumes "is_mat n_V d coords_flat" and "length noise_level = n_V" and "length rho1 = n_V"
    and "\<forall>v<n_V. 0 < noise_level ! v" and "0 < noise_smooth_width" and "0 < n_T"
  shows "\<exists>L_noise ar_noise g1 final_noise g2.
           cholesky (K_noise noise_level (squareform_pdist coords_flat) noise_smooth_width)
             = Inr L_noise \<and>
           ar1_noise L_noise rho1 n_T n_V g = Inr (ar_noise, g1) \<and>
           simulate_noise coords_flat noise_level rho1 noise_smooth_width n_T g
             = Inr (final_noise, g2) \<and>
           (\<forall>t<n_T. \<forall>v<n_V. final_noise ! t ! v = ar_noise ! t ! v + draw g n_V n_T ! v)"
proof -
  let ?K = "K_noise noise_level (squareform_pdist coords_flat) noise_smooth_width"
  have sym: "symmetric ?K" using assms(1,2) by (rule K_noise_symmetric)
  have pd: "pos_def ?K"
    using assms(1,2) by (rule K_noise_pos_def) (use assms(4,5) in auto)
  from pd obtain L where L: "cholesky ?K = Inr L"
    using cholesky_succeeds_iff [OF sym] by blast
  have lenK: "length ?K = n_V"
    using sym assms(1,2) is_mat_K_noise [OF _ assms(2), of "squareform_pdist coords_flat"]
      is_mat_squareform_pdist [of coords_flat]
    by (simp add: is_mat_def)
  have "chol_factor ?K L" using sym L by (rule cholesky_factor)
  then have lenL: "length L = n_V" by (simp add: chol_factor_def is_mat_def lenK)
  from ar1_noise_spec [OF assms(6) lenL assms(3), of g] obtain ar where
    ar: "ar1_noise L rho1 n_T n_V g = Inr (ar, \<lambda>j. g (j + n_T * n_V))" "is_mat n_T n_V ar"
    by blast
  let ?final = "op_row (+) ar (draw g n_V n_T)"
  have sim: "simulate_noise coords_flat noise_level rho1 noise_smooth_width n_T g
               = Inr (?final, \<lambda>j. g (j + Suc n_T * n_V))"
    unfolding simulate_noise_cholesky_ok [OF L] assms(2) using ar(1)
    by (simp add: add_offset_draw)
  have "?final ! t ! v = ar ! t ! v + draw g n_V n_T ! v" if "t < n_T" "v < n_V" for t v
    using ar(2) length_draw that by (rule op_row_nth)
  then show ?thesis using L ar(1) sim by blast
qed

theorem C5_offset_shared_over_time_witness:
  "\<exists>L_noise ar_noise g1 final_noise g2.
     cholesky (K_noise [1 / 2, 5] (squareform_pdist [[0, 0, 0], [1, 0, 0]]) 10) = Inr L_noise \<and>
     ar1_noise L_noise [1 / 2, - 1 / 5] 3 2 real = Inr (ar_noise, g1) \<and>
     simulate_noise [[0, 0, 0], [1, 0, 0]] [1 / 2, 5] [1 / 2, - 1 / 5] 10 3 real
       = Inr (final_noise, g2) \<and>
     (\<forall>t<3. \<forall>v<2. final_noise ! t ! v = ar_noise ! t ! v + draw real 2 3 ! v)"
  using C5_offset_shared_over_time
    [of 2 3 "[[0, 0, 0], [1, 0, 0]]" "[1 / 2, 5]" "[1 / 2, - 1 / 5]" 10 3 real]
  by (simp add: is_mat_def nth_Cons')


lemma is_mat_randn2: "is_mat n m (fst (randn2 n m g))"
  by (rule is_matI) (simp_all add: randn2_def)

lemma randn_fst_draw: "fst (randn n g) = draw g n 0"
  by (simp add: randn_def draw_def)

lemma simulate_signal_ok:
  assumes "cholesky U = Inr L_full"
    and "cholesky (K_snr dist2 (inten_diff2 inten) sw ik tau (length noise_level)) = Inr L"
  shows "simulate_signal design U noise_level dist2 inten tau sw ik snr_level g =
           Inr (\<lparr>snr = map (\<lambda>x. exp x * snr_level) (mat_vec L (fst (randn (length noise_level) g))),
                 betas_simulated =
                   op_row (*)
                     (mat_mul L_full
                        (fst (randn2 (ncols design) (length noise_level)
                                (snd (randn (length noise_level) g)))))
                     (map2 (*) noise_level
                        (map (\<lambda>x. exp x * snr_level)
                           (mat_vec L (fst (randn (length noise_level) g))))),
                 signal =
                   mat_mul design
                     (op_row (*)
                        (mat_mul L_full
                           (fst (randn2 (ncols design) (length noise_level)
                                   (snd (randn (length noise_level) g)))))
                        (map2 (*) noise_level
                           (map (\<lambda>x. exp x * snr_level)
                              (mat_vec L (fst (randn (length noise_level) g))))))\<rparr>,
                snd (randn2 (ncols design) (length noise_level)
                       (snd (randn (length noise_level) g))))"
  using assms by (simp add: simulate_signal_def Let_def split: prod.splits)

text \<open>
  C1. For a symmetric positive definite \<open>U\<close> and valid kernel parameters the signal cell
  returns, and for every voxel \<open>v\<close> the column \<open>v\<close> of the simulated betas is
  \<open>L_U @ z\<^sub>v\<close> times the amplitude \<open>noise_level\<^sub>v * snr\<^sub>v\<close>, where \<open>L_U\<close> is the Cholesky
  factor of \<open>U\<close> and \<open>z\<^sub>v\<close> is column \<open>v\<close> of the drawn standard-normal array. The linear
  map applied to \<open>z\<^sub>v\<close> has the Gram matrix \<open>(noise_level\<^sub>v * snr\<^sub>v)\<^sup>2 * U\<close>: the same \<open>U\<close>
  for every voxel, scaled. The signal is \<^verbatim>\<open>design @ betas\<close>.
\<close>

theorem C1_betas_share_covariance:
  assumes "is_mat n_T n_C design" and "0 < n_T" and "0 < n_C"
    and "symmetric U" and "pos_def U" and "length U = n_C"
    and "is_mat n_V d coords_flat" and "length noise_level = n_V" and "length inten = n_V"
    and "0 < smooth_width" and "0 < inten_kernel" and "0 < tau"
  shows "\<exists>L_U L r g'.
           cholesky U = Inr L_U \<and>
           cholesky (K_snr (squareform_pdist coords_flat) (inten_diff2 inten)
                       smooth_width inten_kernel tau n_V) = Inr L \<and>
           simulate_signal design U noise_level (squareform_pdist coords_flat) inten tau
               smooth_width inten_kernel snr_level g = Inr (r, g') \<and>
           snr r = map (\<lambda>x. exp x * snr_level) (mat_vec L (draw g n_V 0)) \<and>
           (\<forall>v<n_V. column (betas_simulated r) v =
                      map (\<lambda>x. x * (noise_level ! v * snr r ! v))
                        (mat_vec L_U (column (fst (randn2 n_C n_V (snd (randn n_V g)))) v))) \<and>
           signal r = mat_mul design (betas_simulated r) \<and>
           (\<forall>v<n_V. \<forall>i<n_C. \<forall>j<n_C.
              (\<Sum>k<n_C. (noise_level ! v * snr r ! v * L_U ! i ! k)
                        * (noise_level ! v * snr r ! v * L_U ! j ! k))
                = (noise_level ! v * snr r ! v)\<^sup>2 * U ! i ! j)"
proof -
  let ?K = "K_snr (squareform_pdist coords_flat) (inten_diff2 inten) smooth_width inten_kernel tau n_V"
  let ?Z = "fst (randn2 n_C n_V (snd (randn n_V g)))"
  have ncd: "ncols design = n_C" using assms(1,2) by (rule ncols_is_mat)
  \<comment> \<open>both factorisations succeed\<close>
  from assms(5) obtain L_U where LU: "cholesky U = Inr L_U"
    using cholesky_succeeds_iff [OF assms(4)] by blast
  have fU: "chol_factor U L_U" using assms(4) LU by (rule cholesky_factor)
  have mLU: "is_mat n_C n_C L_U" using fU assms(6) by (simp add: chol_factor_def)
  have symK: "symmetric ?K" using assms(7,9) by (rule K_snr_symmetric)
  have pdK: "pos_def ?K"
    using assms(7,9) by (rule K_snr_pos_def) (use assms(10,11,12) in auto)
  from pdK obtain L where L: "cholesky ?K = Inr L"
    using cholesky_succeeds_iff [OF symK] by blast
  have lenK: "length ?K = n_V"
    using is_mat_K_snr [of n_V "squareform_pdist coords_flat" "inten_diff2 inten"]
      is_mat_squareform_pdist [of coords_flat] is_mat_inten_diff2 [of inten] assms(7,9)
    by (simp add: is_mat_def)
  have "chol_factor ?K L" using symK L by (rule cholesky_factor)
  then have lenL: "length L = n_V" by (simp add: chol_factor_def is_mat_def lenK)
  \<comment> \<open>the returned record\<close>
  let ?snr = "map (\<lambda>x. exp x * snr_level) (mat_vec L (draw g n_V 0))"
  let ?sqrt_v = "map2 (*) noise_level ?snr"
  let ?betas = "op_row (*) (mat_mul L_U ?Z) ?sqrt_v"
  let ?r = "\<lparr>snr = ?snr, betas_simulated = ?betas, signal = mat_mul design ?betas\<rparr>"
  have sim: "simulate_signal design U noise_level (squareform_pdist coords_flat) inten tau
               smooth_width inten_kernel snr_level g
             = Inr (?r, snd (randn2 n_C n_V (snd (randn n_V g))))"
    using simulate_signal_ok [OF LU, of "squareform_pdist coords_flat" inten smooth_width
        inten_kernel tau noise_level L design snr_level g] L
    by (simp add: assms(8) ncd randn_fst_draw)
  have mZ: "is_mat n_C n_V ?Z" by (rule is_mat_randn2)
  have mM: "is_mat n_C n_V (mat_mul L_U ?Z)" using mLU mZ assms(3) by (rule is_mat_mat_mul)
  have lsnr: "length ?snr = n_V" by (simp add: length_mat_vec lenL)
  have lsq: "length ?sqrt_v = n_V" using lsnr assms(8) by simp
  have sq: "?sqrt_v ! v = noise_level ! v * ?snr ! v" if "v < n_V" for v
    using that lsnr assms(8) by simp
  have cols: "column ?betas v
                = map (\<lambda>x. x * (noise_level ! v * ?snr ! v)) (mat_vec L_U (column ?Z v))"
    if v: "v < n_V" for v
  proof (rule nth_equalityI)
    show "length (column ?betas v)
            = length (map (\<lambda>x. x * (noise_level ! v * ?snr ! v)) (mat_vec L_U (column ?Z v)))"
      using mLU by (simp add: length_column length_mat_vec op_row_def mat_mul_def)
  next
    fix c assume "c < length (column ?betas v)"
    then have c: "c < n_C"
      using mLU by (simp add: length_column op_row_def mat_mul_def is_mat_def)
    have lenLU: "length L_U = n_C" using mLU by (simp add: is_mat_def)
    have lenB: "length ?betas = n_C" using mM by (simp add: op_row_def is_mat_def)
    have "column ?betas v ! c = ?betas ! c ! v"
      using c lenB by (simp add: column_nth)
    also have "\<dots> = mat_mul L_U ?Z ! c ! v * ?sqrt_v ! v"
      using mM lsq c v by (rule op_row_nth)
    also have "mat_mul L_U ?Z ! c ! v = column (mat_mul L_U ?Z) v ! c"
      using c lenLU by (simp add: column_nth mat_mul_def)
    also have "column (mat_mul L_U ?Z) v = mat_vec L_U (column ?Z v)"
      using mLU mZ v assms(3) by (rule column_mat_mul)
    finally show "column ?betas v ! c
                    = map (\<lambda>x. x * (noise_level ! v * ?snr ! v)) (mat_vec L_U (column ?Z v)) ! c"
      using c lenLU sq [OF v] by (simp add: length_mat_vec)
  qed
  have gram: "(\<Sum>k<n_C. (s * L_U ! i ! k) * (s * L_U ! j ! k)) = s\<^sup>2 * U ! i ! j"
    if "i < n_C" "j < n_C" for i j and s :: real
  proof -
    have "(\<Sum>k<n_C. L_U ! i ! k * L_U ! j ! k) = U ! i ! j"
      using fU that assms(6) by (simp add: chol_factor_def)
    moreover have "(\<Sum>k<n_C. (s * L_U ! i ! k) * (s * L_U ! j ! k))
                     = s\<^sup>2 * (\<Sum>k<n_C. L_U ! i ! k * L_U ! j ! k)"
      unfolding sum_distrib_left by (intro sum.cong refl) (simp add: power2_eq_square)
    ultimately show ?thesis by simp
  qed
  show ?thesis
    apply (rule exI [of _ L_U], rule exI [of _ L], rule exI [of _ ?r], rule exI)
    apply (intro conjI)
          apply (rule LU)
         apply (rule L)
        apply (rule sim)
       apply simp
      apply (simp add: cols)
     apply simp
    apply (simp add: gram)
    done
qed


theorem C1_betas_share_covariance_witness:
  "\<exists>U L_U L r g'.
     ideal_cov 16 = Inr U \<and>
     cholesky U = Inr L_U \<and>
     cholesky (K_snr (squareform_pdist [[0, 0, 0], [1, 0, 0]]) (inten_diff2 [3, 7])
                 3 4 (4 / 5) 2) = Inr L \<and>
     simulate_signal (replicate 2 (replicate 16 1)) U [1 / 2, 5]
         (squareform_pdist [[0, 0, 0], [1, 0, 0]]) [3, 7] (4 / 5) 3 4 (3 / 5) real = Inr (r, g') \<and>
     snr r = map (\<lambda>x. exp x * (3 / 5)) (mat_vec L (draw real 2 0)) \<and>
     (\<forall>v<2. column (betas_simulated r) v =
               map (\<lambda>x. x * ([1 / 2, 5] ! v * snr r ! v))
                 (mat_vec L_U (column (fst (randn2 16 2 (snd (randn 2 real)))) v))) \<and>
     signal r = mat_mul (replicate 2 (replicate 16 1)) (betas_simulated r) \<and>
     (\<forall>v<2. \<forall>i<16. \<forall>j<16.
        (\<Sum>k<16. ([1 / 2, 5] ! v * snr r ! v * L_U ! i ! k) * ([1 / 2, 5] ! v * snr r ! v * L_U ! j ! k))
          = ([1 / 2, 5] ! v * snr r ! v)\<^sup>2 * U ! i ! j)"
proof -
  from ideal_cov_valid [of 16] obtain U where
    U: "ideal_cov 16 = Inr U" and mU: "is_mat 16 16 U" and sym: "symmetric U" and pd: "pos_def U"
    by auto
  have lenU: "length U = 16" using mU by (simp add: is_mat_def)
  have D: "is_mat 2 16 (replicate 2 (replicate 16 (1::real)))"
    by (simp add: is_mat_def list_all_length)
  have X: "is_mat 2 3 [[0, 0, 0], [1, 0, 0::real]]" by (simp add: is_mat_def)
  have "\<exists>L_U L r g'.
     cholesky U = Inr L_U \<and>
     cholesky (K_snr (squareform_pdist [[0, 0, 0], [1, 0, 0]]) (inten_diff2 [3, 7])
                 3 4 (4 / 5) 2) = Inr L \<and>
     simulate_signal (replicate 2 (replicate 16 1)) U [1 / 2, 5]
         (squareform_pdist [[0, 0, 0], [1, 0, 0]]) [3, 7] (4 / 5) 3 4 (3 / 5) real = Inr (r, g') \<and>
     snr r = map (\<lambda>x. exp x * (3 / 5)) (mat_vec L (draw real 2 0)) \<and>
     (\<forall>v<2. column (betas_simulated r) v =
               map (\<lambda>x. x * ([1 / 2, 5] ! v * snr r ! v))
                 (mat_vec L_U (column (fst (randn2 16 2 (snd (randn 2 real)))) v))) \<and>
     signal r = mat_mul (replicate 2 (replicate 16 1)) (betas_simulated r) \<and>
     (\<forall>v<2. \<forall>i<16. \<forall>j<16.
        (\<Sum>k<16. ([1 / 2, 5] ! v * snr r ! v * L_U ! i ! k) * ([1 / 2, 5] ! v * snr r ! v * L_U ! j ! k))
          = ([1 / 2, 5] ! v * snr r ! v)\<^sup>2 * U ! i ! j)"
    by (rule C1_betas_share_covariance [OF D _ _ sym pd lenU X]) simp_all
  then show ?thesis using U by blast
qed

section \<open>Worked examples\<close>


text \<open>Two runs of the factorisation and one of the AR(1) loop.\<close>

lemma cholesky_example: "cholesky [[4, 2], [2, 5]] = Inr [[2, 0], [1, 2]]"
proof -
  have rest: "chol_rest [[4, 2], [2, 5]] = [[4]]"
    by (simp add: chol_rest_def chol_col_def)
  have "cholesky [[4]] = Inr [[2]]"
    by (simp add: cholesky_step cholesky_Nil square_def chol_rest_def chol_col_def chol_assemble_def)
  then show ?thesis
    by (simp add: cholesky_step square_def rest chol_col_def chol_assemble_def)
qed

lemma cholesky_example_fails: "cholesky [[1, 2], [2, 1]] = Inl (LinAlgError NotPositiveDefinite)"
proof -
  have rest: "chol_rest [[1, 2], [2, 1]] = [[- 3]]"
    by (simp add: chol_rest_def chol_col_def)
  have "cholesky [[- 3]] = Inl (LinAlgError NotPositiveDefinite)"
    by (simp add: cholesky_step square_def)
  then show ?thesis
    by (simp add: cholesky_step square_def rest)
qed

lemma ar1_noise_example:
  "ar1_noise [[2]] [0] 3 1 real = Inr ([[0], [2], [4]], \<lambda>k. real (k + 3))"
  by (simp add: ar1_noise_def randn_def zeros_def ar1_first_def ar1_step_def ar1_next_def
      mat_vec_def dot_def upt_rec numeral_3_eq_3)

section \<open>Where float64 departs from the reals\<close>

lemma round_even_eqI:
  assumes "\<bar>y - of_int m\<bar> < 1 / 2"
  shows "round_even y = m"
proof -
  have "\<lfloor>y\<rfloor> = m \<or> \<lfloor>y\<rfloor> = m - 1"
  proof (cases "of_int m \<le> y")
    case True
    moreover have "y < of_int m + 1" using assms by linarith
    ultimately show ?thesis by (simp add: floor_eq_iff)
  next
    case False
    moreover have "of_int m - 1 \<le> y" using assms by linarith
    ultimately show ?thesis by (simp add: floor_eq_iff)
  qed
  then show ?thesis
  proof
    assume f: "\<lfloor>y\<rfloor> = m"
    have "y - of_int m < 1 / 2" using assms by linarith
    then show ?thesis by (simp add: round_even_def f)
  next
    assume f: "\<lfloor>y\<rfloor> = m - 1"
    then have "y < of_int m" using floor_eq_iff [of y "m - 1"] by simp
    then have "1 / 2 < y - of_int (m - 1)" using assms by simp
    then show ?thesis by (simp add: round_even_def f)
  qed
qed

lemma binade_eqI:
  assumes "- 1022 \<le> e" "2 powr of_int e \<le> x" "x < 2 * 2 powr of_int e"
  shows "binade x = e"
proof -
  have pos: "0 < x" using assms(2) by (smt (verit) powr_gt_zero)
  have "(2::real) powr (of_int e + 1) = 2 * 2 powr of_int e" by (simp add: powr_add)
  then have "of_int e \<le> log 2 x" "log 2 x < of_int e + 1"
    using assms pos by (simp_all add: le_log_iff log_less_iff)
  then have "\<lfloor>log 2 x\<rfloor> = e" by (simp add: floor_eq_iff)
  then show ?thesis using assms(1) pos by (simp add: binade_def)
qed

lemma binade_subnormal:
  assumes "0 < x" "x < 2 powr (- 1022)"
  shows "binade x = - 1022"
proof -
  have "log 2 x < - 1022" using assms by (simp add: log_less_iff)
  then have "\<lfloor>log 2 x\<rfloor> < - 1022" by (simp add: floor_less_iff)
  then show ?thesis using assms(1) by (simp add: binade_def)
qed

lemma fl_eqI:
  assumes "- 1022 \<le> e" "2 powr of_int e \<le> x" "x < 2 * 2 powr of_int e"
    and "(of_int m - 1 / 2) * 2 powr (of_int e - 52) < x"
    and "x < (of_int m + 1 / 2) * 2 powr (of_int e - 52)"
  shows "fl x = of_int m * 2 powr (of_int e - 52)"
proof -
  let ?q = "2 powr (of_int e - 52) :: real"
  have q: "0 < ?q" by simp
  have b: "binade x = e" using assms(1,2,3) by (rule binade_eqI)
  have pos: "0 < x" using assms(2) by (smt (verit) powr_gt_zero)
  have "of_int m - 1 / 2 < x / ?q" "x / ?q < of_int m + 1 / 2"
    using assms(4,5) q by (simp_all add: field_simps)
  then have "\<bar>x / ?q - of_int m\<bar> < 1 / 2" by linarith
  then have "round_even (x / ?q) = m" by (rule round_even_eqI)
  then show ?thesis using pos by (simp add: fl_def b)
qed

lemma fl_underflow:
  assumes "0 < x" "x < 2 powr (- 1075)"
  shows "fl x = 0"
proof -
  have "(2::real) powr (- 1075) \<le> 2 powr (- 1022)" by (rule powr_mono) simp_all
  then have "x < 2 powr (- 1022)" using assms(2) by linarith
  with assms(1) have b: "binade x = - 1022" by (rule binade_subnormal)
  have "x / 2 powr (- 1074) < 1 / 2"
  proof -
    have "(2::real) powr (- 1074) = 2 powr (- 1075 + 1)" by simp
    also have "\<dots> = 2 powr (- 1075) * 2 powr 1" by (simp only: powr_add)
    finally have "(2::real) powr (- 1074) = 2 * 2 powr (- 1075)" by simp
    then have "x < 2 powr (- 1074) / 2" using assms(2) by linarith
    moreover have "0 < (2::real) powr (- 1074)" by simp
    ultimately show ?thesis by (simp only: pos_divide_less_eq)
  qed
  moreover have "0 < x / 2 powr (- 1074)" using assms(1) by simp
  ultimately have "\<bar>x / 2 powr (- 1074) - of_int 0\<bar> < 1 / 2"
    unfolding of_int_0 diff_0_right by linarith
  then have "round_even (x / 2 powr (- 1074)) = 0" by (rule round_even_eqI)
  then show ?thesis by (simp add: fl_def b)
qed

lemma fl_0: "fl 0 = 0" by (simp add: fl_def)


lemma fl_eq_negI:
  assumes "k \<le> 1022"
    and "1 / 2 ^ k \<le> x" and "x < 2 / 2 ^ k"
    and "(of_int m - 1 / 2) / 2 ^ (k + 52) < x"
    and "x < (of_int m + 1 / 2) / 2 ^ (k + 52)"
  shows "fl x = of_int m / 2 ^ (k + 52)"
proof -
  have p1: "(2::real) powr of_int (- int k) = 1 / 2 ^ k"
    by (simp add: powr_minus powr_realpow inverse_eq_divide)
  have "of_int (- int k) - 52 = - real (k + 52)" by simp
  then have p2: "(2::real) powr (of_int (- int k) - 52) = 1 / 2 ^ (k + 52)"
    by (simp only: powr_minus powr_realpow inverse_eq_divide)
  have "fl x = of_int m * 2 powr (of_int (- int k) - 52)"
    using assms by (intro fl_eqI) (simp_all only: p1 p2, simp_all)
  then show ?thesis by (simp only: p2) simp
qed

lemma fl_underflow_pow:
  assumes "0 < x" "x < 1 / 2 ^ 1075"
  shows "fl x = 0"
proof -
  have "(2::real) powr (- 1075) = 1 / 2 ^ 1075"
    using powr_minus [of "2::real" "real 1075"] powr_realpow [of "2::real" 1075]
    by (simp add: inverse_eq_divide)
  then show ?thesis using assms by (intro fl_underflow) simp_all
qed

lemma fl_1: "fl 1 = 1"
  using fl_eq_negI [of 0 1 "2 ^ 52"] by simp

lemma fl_tenth: "fl 0.1 = 7205759403792794 / 2 ^ 56"
  using fl_eq_negI [of 4 "0.1" 7205759403792794] by simp


lemma fl_tenth_fixed: "fl (7205759403792794 / 2 ^ 56) = 7205759403792794 / 2 ^ 56"
  using fl_eq_negI [of 4 "7205759403792794 / 2 ^ 56" 7205759403792794] by simp

lemma fl_one_plus_tenth: "fl (1 + 7205759403792794 / 2 ^ 56) = 4953959590107546 / 2 ^ 52"
  using fl_eq_negI [of 0 "1 + 7205759403792794 / 2 ^ 56" 4953959590107546] by simp

lemma fl_scaled: "fl (1 / 2 ^ 600 * (4953959590107546 / 2 ^ 52)) = 4953959590107546 / 2 ^ 652"
  using fl_eq_negI [of 600 "1 / 2 ^ 600 * (4953959590107546 / 2 ^ 52)" 4953959590107546] by simp

lemma fl_product_underflows: "fl (4953959590107546 / 2 ^ 652 * (1 / 2 ^ 600)) = 0"
  by (rule fl_underflow_pow) simp_all

lemma fl_square_underflows: "fl (1 / 2 ^ 600 * (1 / 2 ^ 600)) = 0"
  by (rule fl_underflow_pow) simp_all

lemma K_noise_f64_1x1:
  "K_noise_f64 [s] [[d]] w =
     [[fmul (fmul s (fadd (fexp (fdiv (fdiv (- d) (fmul w w)) 2)) (fmul 1 (fl 0.1)))) s]]"
  by (simp add: K_noise_f64_def eye_def mat_map_def mat_map2_def col_op_def op_row_def)

lemma squareform_pdist_one: "squareform_pdist [x] = [[0]]"
  by (simp add: squareform_pdist_def)

lemma K_noise_f64_underflow:
  "K_noise_f64 [1 / 2 ^ 600] (squareform_pdist [[0, 0, 0]]) 10 = [[0]]"
proof -
  have e: "fexp (fdiv (fdiv (- 0) (fmul 10 10)) 2) = 1"
    by (simp add: fdiv_def fexp_def fl_0 fl_1)
  have j: "fmul 1 (fl 0.1) = 7205759403792794 / 2 ^ 56"
    unfolding fmul_def fl_tenth mult_1 by (rule fl_tenth_fixed)
  have a: "fadd 1 (7205759403792794 / 2 ^ 56) = 4953959590107546 / 2 ^ 52"
    unfolding fadd_def by (rule fl_one_plus_tenth)
  have m1: "fmul (1 / 2 ^ 600) (4953959590107546 / 2 ^ 52) = 4953959590107546 / 2 ^ 652"
    unfolding fmul_def by (rule fl_scaled)
  have m2: "fmul (4953959590107546 / 2 ^ 652) (1 / 2 ^ 600) = 0"
    unfolding fmul_def by (rule fl_product_underflows)
  show ?thesis
    unfolding squareform_pdist_one K_noise_f64_1x1 e j a m1 m2 ..
qed

lemma inten_diff2_f64_one: "inten_diff2_f64 [x] = [[0]]"
  by (simp add: inten_diff2_f64_def tile_rows_def transpose_m_def ncols_def mat_map_def
      mat_map2_def fsub_def fmul_def fl_0)

lemma K_snr_f64_1x1:
  "K_snr_f64 [[d]] [[i]] sw ik tau 1 =
     [[fadd (fmul (fexp (fsub (fdiv (fdiv (- d) (fmul sw sw)) 2) (fdiv (fdiv i (fmul ik ik)) 2)))
                  (fmul tau tau))
            (fmul (fmul 1 (fmul tau tau)) (fl 0.001))]]"
  by (simp add: K_snr_f64_def eye_def mat_map_def mat_map2_def)

lemma K_snr_f64_underflow:
  "K_snr_f64 (squareform_pdist [[0, 0, 0]]) (inten_diff2_f64 [3]) 3 4 (1 / 2 ^ 600) 1 = [[0]]"
proof -
  have t: "fmul (1 / 2 ^ 600) (1 / 2 ^ 600) = 0"
    unfolding fmul_def by (rule fl_square_underflows)
  have e: "fexp (fsub (fdiv (fdiv (- 0) (fmul 3 3)) 2) (fdiv (fdiv 0 (fmul 4 4)) 2)) = 1"
    by (simp add: fdiv_def fsub_def fexp_def fl_0 fl_1)
  have z: "fadd (fmul 1 0) (fmul (fmul 1 0) (fl 0.001)) = 0"
    by (simp add: fadd_def fmul_def fl_0)
  show ?thesis
    unfolding squareform_pdist_one inten_diff2_f64_one K_snr_f64_1x1 t e z ..
qed

lemma cholesky_zero: "cholesky [[0]] = Inl (LinAlgError NotPositiveDefinite)"
  by (simp add: cholesky_step square_def)

lemma not_pos_def_zero: "\<not> pos_def [[0]]"
  using pos_def_diag_pos [of "[[0]]" 0] by auto


lemma fl_sqrt_negI:
  assumes "k \<le> 1022" "0 \<le> u"
    and "(1 / 2 ^ k)\<^sup>2 \<le> u" and "u < (2 / 2 ^ k)\<^sup>2"
    and "((of_int m - 1 / 2) / 2 ^ (k + 52))\<^sup>2 < u"
    and "u < ((of_int m + 1 / 2) / 2 ^ (k + 52))\<^sup>2" and "0 \<le> m"
  shows "fsqrt u = of_int m / 2 ^ (k + 52)"
  unfolding fsqrt_def
proof (rule fl_eq_negI [OF assms(1)])
  show "1 / 2 ^ k \<le> sqrt u" using assms(3) by (rule real_le_rsqrt)
  show "sqrt u < 2 / 2 ^ k" using assms(4) by (intro real_less_lsqrt) simp_all
  show "(of_int m - 1 / 2) / 2 ^ (k + 52) < sqrt u" using assms(5) by (rule real_less_rsqrt)
  show "sqrt u < (of_int m + 1 / 2) / 2 ^ (k + 52)"
    using assms(6,7) by (intro real_less_lsqrt) simp_all
qed

lemma fl_six_tenths: "fl 0.6 = 5404319552844595 / 2 ^ 53"
  using fl_eq_negI [of 1 "0.6" 5404319552844595] by simp

lemma fsqrt_six_tenths: "fsqrt (5404319552844595 / 2 ^ 53) = 6976946541916744 / 2 ^ 53"
  using fl_sqrt_negI [of 1 "5404319552844595 / 2 ^ 53" 6976946541916744]
  by (simp add: power2_eq_square)

lemma fdiv_six_tenths_1:
  "fdiv (5404319552844595 / 2 ^ 53) (6976946541916744 / 2 ^ 53) = 6976946541916743 / 2 ^ 53"
  unfolding fdiv_def
  using fl_eq_negI [of 1 "5404319552844595 / 2 ^ 53 / (6976946541916744 / 2 ^ 53)" 6976946541916743]
  by simp

lemma fdiv_six_tenths_2:
  "fdiv (6976946541916743 / 2 ^ 53) (6976946541916744 / 2 ^ 53) = 9007199254740991 / 2 ^ 53"
  unfolding fdiv_def
  using fl_eq_negI [of 1 "6976946541916743 / 2 ^ 53 / (6976946541916744 / 2 ^ 53)" 9007199254740991]
  by simp

lemma fl_eight_tenths: "fl 0.8 = 7205759403792794 / 2 ^ 53"
  using fl_eq_negI [of 1 "0.8" 7205759403792794] by simp

lemma fsqrt_eight_tenths: "fsqrt (7205759403792794 / 2 ^ 53) = 8056283928194521 / 2 ^ 53"
  using fl_sqrt_negI [of 1 "7205759403792794 / 2 ^ 53" 8056283928194521]
  by (simp add: power2_eq_square)

lemma fdiv_eight_tenths_1:
  "fdiv (7205759403792794 / 2 ^ 53) (8056283928194521 / 2 ^ 53) = 8056283928194522 / 2 ^ 53"
  unfolding fdiv_def
  using fl_eq_negI [of 1 "7205759403792794 / 2 ^ 53 / (8056283928194521 / 2 ^ 53)" 8056283928194522]
  by simp

lemma fdiv_eight_tenths_2:
  "fdiv (8056283928194522 / 2 ^ 53) (8056283928194521 / 2 ^ 53) = 4503599627370497 / 2 ^ 52"
  unfolding fdiv_def
  using fl_eq_negI [of 0 "8056283928194522 / 2 ^ 53 / (8056283928194521 / 2 ^ 53)" 4503599627370497]
  by simp

lemma ideal_corr_f64_1x1: "ideal_corr_f64 [[u]] = [[fdiv (fdiv u (fsqrt u)) (fsqrt u)]]"
  by (simp add: ideal_corr_f64_def diag_def op_row_def op_col_def)

lemma fl_small_power: "fl (1 / 2 ^ 600) = 1 / 2 ^ 600"
  using fl_eq_negI [of 600 "1 / 2 ^ 600" "2 ^ 52"] by (simp add: power_add)

lemma pos_semidef_1x1: "0 \<le> u \<Longrightarrow> pos_semidef [[u]]"
proof -
  assume u: "0 \<le> u"
  have "0 \<le> c ! 0 * u * c ! 0" for c :: vec
    using u mult_nonneg_nonneg [of "(c ! 0)\<^sup>2" u]
    by (simp add: power2_eq_square mult.commute mult.left_commute)
  then show ?thesis by (simp add: pos_semidef_def quad_form_def)
qed

lemma symmetric_1x1: "symmetric [[u]]"
  by (simp add: symmetric_def square_def)

text \<open>
  The counterexample to C4 as it is stated, for every strictly positive input of the
  float64 program. At one voxel with the noise level \<^verbatim>\<open>2**-600\<close>, a float64, the product
  \<open>noise_level * 1.1 * noise_level\<close> underflows: \<open>K_noise\<close> is the zero matrix, not positive
  definite, and the factorisation stops at its first pivot. With \<^verbatim>\<open>tau = 2**-600\<close> the
  square \<^verbatim>\<open>tau**2\<close> underflows and the same happens to \<open>K\<close>, jitter included.
\<close>

theorem C4_float64_underflow:
  "fl (1 / 2 ^ 600) = 1 / 2 ^ 600 \<and> (0::real) < 1 / 2 ^ 600 \<and>
   K_noise_f64 [1 / 2 ^ 600] (squareform_pdist [[0, 0, 0]]) 10 = [[0]] \<and>
   \<not> pos_def (K_noise_f64 [1 / 2 ^ 600] (squareform_pdist [[0, 0, 0]]) 10) \<and>
   cholesky (K_noise_f64 [1 / 2 ^ 600] (squareform_pdist [[0, 0, 0]]) 10)
     = Inl (LinAlgError NotPositiveDefinite) \<and>
   K_snr_f64 (squareform_pdist [[0, 0, 0]]) (inten_diff2_f64 [3]) 3 4 (1 / 2 ^ 600) 1 = [[0]] \<and>
   \<not> pos_def (K_snr_f64 (squareform_pdist [[0, 0, 0]]) (inten_diff2_f64 [3]) 3 4 (1 / 2 ^ 600) 1) \<and>
   cholesky (K_snr_f64 (squareform_pdist [[0, 0, 0]]) (inten_diff2_f64 [3]) 3 4 (1 / 2 ^ 600) 1)
     = Inl (LinAlgError NotPositiveDefinite)"
  unfolding K_noise_f64_underflow K_snr_f64_underflow
  using fl_small_power cholesky_zero not_pos_def_zero by simp

text \<open>
  The counterexample to C6 as it is stated, with no tolerance. On the 1 x 1 covariance
  \<open>0.6\<close>, the diagonal value of the notebook's own \<^verbatim>\<open>ideal_cov\<close>, the float64 program
  returns \<^verbatim>\<open>1 - 2**-53\<close>, which is not 1; on \<open>0.8\<close> it returns \<^verbatim>\<open>1 + 2**-52\<close>, which is above 1.
\<close>

theorem C6_float64_rounding:
  "symmetric [[fl 0.6]] \<and> pos_semidef [[fl 0.6]] \<and> 0 < fl 0.6 \<and>
   ideal_corr_f64 [[fl 0.6]] ! 0 ! 0 = 1 - 1 / 2 ^ 53 \<and>
   ideal_corr_f64 [[fl 0.6]] ! 0 ! 0 \<noteq> 1 \<and>
   symmetric [[fl 0.8]] \<and> pos_semidef [[fl 0.8]] \<and> 0 < fl 0.8 \<and>
   ideal_corr_f64 [[fl 0.8]] ! 0 ! 0 = 1 + 1 / 2 ^ 52 \<and>
   \<not> ideal_corr_f64 [[fl 0.8]] ! 0 ! 0 \<le> 1"
proof -
  have six: "ideal_corr_f64 [[fl 0.6]] ! 0 ! 0 = 9007199254740991 / 2 ^ 53"
    unfolding fl_six_tenths ideal_corr_f64_1x1 fsqrt_six_tenths fdiv_six_tenths_1
      fdiv_six_tenths_2 by simp
  have eight: "ideal_corr_f64 [[fl 0.8]] ! 0 ! 0 = 4503599627370497 / 2 ^ 52"
    unfolding fl_eight_tenths ideal_corr_f64_1x1 fsqrt_eight_tenths fdiv_eight_tenths_1
      fdiv_eight_tenths_2 by simp
  have p6: "0 < fl 0.6" unfolding fl_six_tenths by simp
  have p8: "0 < fl 0.8" unfolding fl_eight_tenths by simp
  have "pos_semidef [[fl 0.6]]" "pos_semidef [[fl 0.8]]"
    using p6 p8 by (simp_all add: pos_semidef_1x1)
  then show ?thesis
    unfolding six eight using p6 p8 by (simp add: symmetric_1x1)
qed

end
